theory Spec2Isabelle
  imports Main "HOL-Library.Sublist" "HOL-Library.AList" "HOL-Library.Multiset"
begin

section \<open>The document tree\<close>

text \<open>
  The clustering code of \<^verbatim>\<open>clusters.js\<close> reads a DOM tree through \<^verbatim>\<open>parentNode\<close>,
  \<^verbatim>\<open>nextSibling\<close>, \<^verbatim>\<open>previousSibling\<close>, \<^verbatim>\<open>contains\<close>, \<^verbatim>\<open>compareDocumentPosition\<close> and
  \<^verbatim>\<open>tagName\<close>. The tree is a value of type \<open>dom\<close>; a node is named by its path from the
  root (the list of child indices), so that two references are the same node exactly when
  the paths are equal. The root plays the part of the document: its parent is \<^verbatim>\<open>null\<close>.
\<close>

datatype dom = Element string "dom list" | Text string

type_synonym node = "nat list"

text \<open>A JavaScript reference as \<^verbatim>\<open>numStrides\<close> sees it: \<^verbatim>\<open>undefined\<close>, \<^verbatim>\<open>null\<close> or a node.\<close>

datatype jsref = Undefined | Null | Ref node

datatype error = TypeError | InsufficientClusters | EmptyIterable

fun childNodes :: "dom \<Rightarrow> dom list" where
  "childNodes (Element tag cs) = cs"
| "childNodes (Text s) = []"

fun lookup :: "dom \<Rightarrow> node \<Rightarrow> dom option" where
  "lookup t [] = Some t"
| "lookup t (i # p) =
     (if i < length (childNodes t) then lookup (childNodes t ! i) p else None)"

definition parentNode :: "node \<Rightarrow> node option" where
  "parentNode p = (if p = [] then None else Some (butlast p))"

definition nextSibling :: "dom \<Rightarrow> node \<Rightarrow> node option" where
  "nextSibling t p =
     (if p = [] then None
      else case lookup t (butlast p) of
             None \<Rightarrow> None
           | Some parent \<Rightarrow>
               if Suc (last p) < length (childNodes parent)
               then Some (butlast p @ [Suc (last p)]) else None)"

definition previousSibling :: "node \<Rightarrow> node option" where
  "previousSibling p =
     (if p = [] \<or> last p = 0 then None else Some (butlast p @ [last p - 1]))"

text \<open>\<^verbatim>\<open>a.contains(b)\<close>: \<open>b\<close> is \<open>a\<close> or a descendant of \<open>a\<close>.\<close>

definition contains :: "node \<Rightarrow> node \<Rightarrow> bool" where
  "contains a b = prefix a b"

text \<open>\<^verbatim>\<open>tagName\<close> is \<^verbatim>\<open>undefined\<close> (here \<open>None\<close>) on a text node.\<close>

definition tagName :: "dom \<Rightarrow> node \<Rightarrow> string option" where
  "tagName t p = (case lookup t p of Some (Element tag cs) \<Rightarrow> Some tag | _ \<Rightarrow> None)"

definition DOCUMENT_POSITION_PRECEDING :: nat where "DOCUMENT_POSITION_PRECEDING = 2"
definition DOCUMENT_POSITION_FOLLOWING :: nat where "DOCUMENT_POSITION_FOLLOWING = 4"
definition DOCUMENT_POSITION_CONTAINS :: nat where "DOCUMENT_POSITION_CONTAINS = 8"
definition DOCUMENT_POSITION_CONTAINED_BY :: nat where "DOCUMENT_POSITION_CONTAINED_BY = 16"

text \<open>Document order is the preorder of the tree: the order of the paths, an ancestor first.\<close>

fun before :: "node \<Rightarrow> node \<Rightarrow> bool" where
  "before [] [] = False"
| "before [] (j # q) = True"
| "before (i # p) [] = False"
| "before (i # p) (j # q) = (i < j \<or> (i = j \<and> before p q))"

text \<open>
  \<^verbatim>\<open>a.compareDocumentPosition(b)\<close> describes \<open>b\<close> relative to \<open>a\<close>: an ancestor \<open>b\<close> of
  \<open>a\<close> both contains and precedes it, a descendant is contained by and follows it.
\<close>

definition compareDocumentPosition :: "node \<Rightarrow> node \<Rightarrow> nat" where
  "compareDocumentPosition a b =
     (if a = b then 0
      else if prefix b a then DOCUMENT_POSITION_CONTAINS + DOCUMENT_POSITION_PRECEDING
      else if prefix a b then DOCUMENT_POSITION_CONTAINED_BY + DOCUMENT_POSITION_FOLLOWING
      else if before b a then DOCUMENT_POSITION_PRECEDING
      else DOCUMENT_POSITION_FOLLOWING)"

text \<open>The white space characters: space, tab, line feed, vertical tab, form feed, return.\<close>

definition isSpace :: "char \<Rightarrow> bool" where
  "isSpace c = (c \<in> set [CHR '' '', CHR 0x09, CHR 0x0A, CHR 0x0B, CHR 0x0C, CHR 0x0D])"

text \<open>
  Modelled from the spec: \<^verbatim>\<open>isWhitespace\<close> of \<^verbatim>\<open>utils.js\<close>, which is not among the
  sources; the spec calls it the whitespace-only predicate: a text node whose content is
  only white space.
\<close>

definition isWhitespace :: "dom \<Rightarrow> node \<Rightarrow> bool" where
  "isWhitespace t p = (case lookup t p of Some (Text s) \<Rightarrow> list_all isSpace s | _ \<Rightarrow> False)"

section \<open>numStrides\<close>

definition truthy :: "jsref \<Rightarrow> bool" where
  "truthy r = (case r of Ref p \<Rightarrow> True | _ \<Rightarrow> False)"

definition ref_of :: "node option \<Rightarrow> jsref" where
  "ref_of x = (case x of None \<Rightarrow> Null | Some p \<Rightarrow> Ref p)"

text \<open>How many siblings come after the node, itself included (the measure of the walk).\<close>

definition siblingsLeft :: "dom \<Rightarrow> node \<Rightarrow> nat" where
  "siblingsLeft t p =
     (case lookup t (butlast p) of
        None \<Rightarrow> 0
      | Some parent \<Rightarrow> length (childNodes parent) - last p)"

lemma nextSibling_decreases:
  "nextSibling t p = Some q \<Longrightarrow> siblingsLeft t q < siblingsLeft t p"
  by (auto simp: nextSibling_def siblingsLeft_def split: if_splits option.splits)

text \<open>
  The first loop of \<^verbatim>\<open>numStrides\<close>: walk right from \<open>sibling\<close> until the right node or
  the end; \<^verbatim>\<open>shouldContinue\<close> is \<^verbatim>\<open>sibling && sibling !== right\<close> at every test.
\<close>

function walkRight :: "dom \<Rightarrow> jsref \<Rightarrow> jsref \<Rightarrow> nat \<Rightarrow> jsref \<times> nat" where
  "walkRight t sibling right num =
     (case sibling of
        Ref p \<Rightarrow>
          if sibling \<noteq> right then
            (let sibling' = ref_of (nextSibling t p);
                 shouldContinue = (truthy sibling' \<and> sibling' \<noteq> right)
             in case sibling' of
                  Ref q \<Rightarrow>
                    walkRight t sibling' right
                      (if shouldContinue \<and> \<not> isWhitespace t q then num + 1 else num)
                | _ \<Rightarrow> (sibling', num))
          else (sibling, num)
      | _ \<Rightarrow> (sibling, num))"
  by pat_completeness auto
termination
  by (relation "measure (\<lambda>(t, s, r, n). case s of Ref p \<Rightarrow> siblingsLeft t p | _ \<Rightarrow> 0)")
     (auto simp: ref_of_def split: option.splits dest: nextSibling_decreases)

text \<open>The second loop: walk left from \<open>sibling\<close> to the start of the sibling list.\<close>

function walkLeft :: "dom \<Rightarrow> jsref \<Rightarrow> nat \<Rightarrow> nat" where
  "walkLeft t sibling num =
     (case sibling of
        Ref p \<Rightarrow>
          (let sibling' = ref_of (previousSibling p)
           in case sibling' of
                Ref q \<Rightarrow> walkLeft t sibling' (if \<not> isWhitespace t q then num + 1 else num)
              | _ \<Rightarrow> walkLeft t sibling' num)
      | _ \<Rightarrow> num)"
  by pat_completeness auto
termination
  by (relation "measure (\<lambda>(t, s, n). case s of Ref p \<Rightarrow> Suc (last p) | _ \<Rightarrow> 0)")
     (auto simp: ref_of_def previousSibling_def split: option.splits if_splits)

declare walkRight.simps [simp del] walkLeft.simps [simp del]

definition numStrides :: "dom \<Rightarrow> jsref \<Rightarrow> jsref \<Rightarrow> nat" where
  "numStrides t left right =
     (case walkRight t left right 0 of
        (sibling, num) \<Rightarrow> if sibling \<noteq> right then walkLeft t right num else num)"

section \<open>distance\<close>

definition DIFFERENT_DEPTH_COST :: nat where "DIFFERENT_DEPTH_COST = 2"
definition DIFFERENT_TAG_COST :: nat where "DIFFERENT_TAG_COST = 2"
definition SAME_TAG_COST :: nat where "SAME_TAG_COST = 1"
definition STRIDE_COST :: nat where "STRIDE_COST = 1"

text \<open>\<^verbatim>\<open>Array.prototype.pop\<close>: the last element and the shortened array; \<^verbatim>\<open>undefined\<close>
  (here \<open>None\<close>) from an empty array.\<close>

definition pop :: "'a list \<Rightarrow> 'a option \<times> 'a list" where
  "pop xs = (if xs = [] then (None, []) else (Some (last xs), butlast xs))"

definition operand :: "node option \<Rightarrow> jsref" where
  "operand x = (case x of None \<Rightarrow> Undefined | Some p \<Rightarrow> Ref p)"

text \<open>
  The first loop of \<^verbatim>\<open>distance\<close>: ascend from A to the first ancestor that contains B,
  pushing every node reached. Reading \<^verbatim>\<open>contains\<close> of \<^verbatim>\<open>null\<close> is a TypeError.
\<close>

function ascendA :: "node \<Rightarrow> node \<Rightarrow> node list \<Rightarrow> error + (node \<times> node list)" where
  "ascendA aAncestor elementB aAncestors =
     (if \<not> contains aAncestor elementB then
        (case parentNode aAncestor of
           None \<Rightarrow> Inl TypeError
         | Some parent \<Rightarrow> ascendA parent elementB (aAncestors @ [parent]))
      else Inr (aAncestor, aAncestors))"
  by pat_completeness auto
termination
  by (relation "measure (\<lambda>(a, b, acc). length a)")
     (auto simp: parentNode_def split: if_splits)

text \<open>
  The second loop, a \<^verbatim>\<open>do ... while\<close>: B's parent is pushed before the first test. When
  the walk leaves the tree, \<^verbatim>\<open>null\<close> is pushed, the test \<^verbatim>\<open>null !== aAncestor\<close> holds and
  the next round reads \<^verbatim>\<open>parentNode\<close> of \<^verbatim>\<open>null\<close>: a TypeError.
\<close>

function ascendB :: "node \<Rightarrow> node \<Rightarrow> node list \<Rightarrow> error + node list" where
  "ascendB bAncestor aAncestor bAncestors =
     (case parentNode bAncestor of
        None \<Rightarrow> Inl TypeError
      | Some parent \<Rightarrow>
          if parent \<noteq> aAncestor then ascendB parent aAncestor (bAncestors @ [parent])
          else Inr (bAncestors @ [parent]))"
  by pat_completeness auto
termination
  by (relation "measure (\<lambda>(b, a, acc). length b)")
     (auto simp: parentNode_def split: if_splits)

lemma pop_shorter: "(x, xs') = pop xs \<Longrightarrow> length xs' \<le> length xs"
  by (auto simp: pop_def split: if_splits)

lemma pop_shorter_strict: "(x, xs') = pop xs \<Longrightarrow> xs \<noteq> [] \<Longrightarrow> length xs' < length xs"
  by (cases xs rule: rev_cases) (auto simp: pop_def)

text \<open>The last loop: descend both stacks in parallel, adding up the cost.\<close>

function descend :: "dom \<Rightarrow> bool \<Rightarrow> node list \<Rightarrow> node list \<Rightarrow> nat \<Rightarrow> nat" where
  "descend t mightStride left right cost =
     (if left \<noteq> [] \<or> right \<noteq> [] then
        (case pop left of (l, left') \<Rightarrow>
         case pop right of (r, right') \<Rightarrow>
           descend t mightStride left' right'
             (cost
              + (if l = None \<or> r = None then DIFFERENT_DEPTH_COST
                 else if tagName t (the l) = tagName t (the r) then SAME_TAG_COST
                 else DIFFERENT_TAG_COST)
              + (if mightStride then numStrides t (operand l) (operand r) * STRIDE_COST
                 else 0)))
      else cost)"
  by pat_completeness auto
termination
  by (relation "measure (\<lambda>(t, m, l, r, c). length l + length r)")
     (auto dest: pop_shorter pop_shorter_strict intro: add_less_le_mono add_le_less_mono)

declare ascendA.simps [simp del] ascendB.simps [simp del] descend.simps [simp del]

definition distance :: "dom \<Rightarrow> node \<Rightarrow> node \<Rightarrow> error + nat" where
  "distance t elementA elementB =
     (if elementA = elementB then Inr 0
      else case ascendA elementA elementB [elementA] of
        Inl e \<Rightarrow> Inl e
      | Inr (aAncestor, aAncestors) \<Rightarrow>
         (case ascendB elementB aAncestor [elementB] of
            Inl e \<Rightarrow> Inl e
          | Inr bAncestors \<Rightarrow>
             (let comparison = compareDocumentPosition elementA elementB
              in if and comparison DOCUMENT_POSITION_FOLLOWING \<noteq> 0 then
                   Inr (descend t (and comparison DOCUMENT_POSITION_CONTAINED_BY = 0)
                          aAncestors bAncestors 0)
                 else if and comparison DOCUMENT_POSITION_PRECEDING \<noteq> 0 then
                   Inr (descend t (and comparison DOCUMENT_POSITION_CONTAINS = 0)
                          bAncestors aAncestors 0)
                 else Inr (descend t False aAncestors bAncestors 0))))"

section \<open>DistanceMatrix\<close>

text \<open>
  A JavaScript number as the matrix meets it: a distance (a natural number), \<^verbatim>\<open>Infinity\<close> (a
  threshold) or \<^verbatim>\<open>NaN\<close> (\<^verbatim>\<open>Math.min\<close> of \<^verbatim>\<open>undefined\<close>).
\<close>

datatype jsnum = Num nat | Infinity | NaN

fun js_lt :: "jsnum \<Rightarrow> jsnum \<Rightarrow> bool" where
  "js_lt (Num x) (Num y) = (x < y)"
| "js_lt (Num x) Infinity = True"
| "js_lt x y = False"

fun toNumber :: "jsnum option \<Rightarrow> jsnum" where
  "toNumber None = NaN"
| "toNumber (Some x) = x"

fun Math_min :: "jsnum \<Rightarrow> jsnum \<Rightarrow> jsnum" where
  "Math_min NaN y = NaN"
| "Math_min x NaN = NaN"
| "Math_min (Num x) (Num y) = Num (min x y)"
| "Math_min (Num x) Infinity = Num x"
| "Math_min Infinity y = y"

text \<open>
  A cluster is an array: \<^verbatim>\<open>[el]\<close> or \<^verbatim>\<open>[clusterA, clusterB]\<close>. The arrays are never
  changed once made, and the matrix keys its maps by their identity. The first component
  is the array's identity, the number of arrays allocated before it, so that equality of
  \<open>cluster\<close> values is identity of the arrays.
\<close>

datatype cluster = Single nat node | Merged nat cluster cluster

fun ident :: "cluster \<Rightarrow> nat" where
  "ident (Single i el) = i"
| "ident (Merged i x y) = i"

text \<open>\<^verbatim>\<open>cluster[0]\<close> where a node is expected: there is one in a singleton only.\<close>

fun element0 :: "cluster \<Rightarrow> node option" where
  "element0 (Single i el) = Some el"
| "element0 (Merged i x y) = None"

text \<open>A \<^verbatim>\<open>Map\<close> keeps insertion order: an association list, \<^verbatim>\<open>set\<close> is \<open>AList.update\<close>
  (in place, or at the end for a new key), \<^verbatim>\<open>delete\<close> is \<open>AList.delete\<close>, \<^verbatim>\<open>get\<close> is
  \<open>map_of\<close>.\<close>

type_synonym row = "(cluster \<times> jsnum) list"
type_synonym table = "(cluster \<times> row) list"

record DistanceMatrix =
  matrix :: table
  numClusters :: int
  allocated :: nat

record entry =
  entry_a :: cluster
  entry_b :: cluster
  entry_distance :: jsnum

text \<open>
  The inner loop of the constructor: one distance for every key already in the matrix. The
  keys are the singletons made just before; were one of the two not a singleton, \<^verbatim>\<open>distance\<close>
  would be handed an array in place of a node and \<^verbatim>\<open>contains\<close> would throw a TypeError.
\<close>

fun initRow :: "dom \<Rightarrow> cluster \<Rightarrow> cluster list \<Rightarrow> row \<Rightarrow> error + row" where
  "initRow t outerCluster [] innerMap = Inr innerMap"
| "initRow t outerCluster (innerCluster # keys) innerMap =
     (case (element0 outerCluster, element0 innerCluster) of
        (Some x, Some y) \<Rightarrow>
          (case distance t x y of
             Inl e \<Rightarrow> Inl e
           | Inr d \<Rightarrow> initRow t outerCluster keys (AList.update innerCluster (Num d) innerMap))
      | _ \<Rightarrow> Inl TypeError)"

fun initMatrix :: "dom \<Rightarrow> cluster list \<Rightarrow> table \<Rightarrow> error + table" where
  "initMatrix t [] m = Inr m"
| "initMatrix t (outerCluster # clusters) m =
     (case initRow t outerCluster (map fst m) [] of
        Inl e \<Rightarrow> Inl e
      | Inr innerMap \<Rightarrow> initMatrix t clusters (AList.update outerCluster innerMap m))"

definition singletons :: "node list \<Rightarrow> cluster list" where
  "singletons elements = map (\<lambda>(i, el). Single i el) (enumerate 0 elements)"

definition DistanceMatrix_new :: "dom \<Rightarrow> node list \<Rightarrow> error + DistanceMatrix" where
  "DistanceMatrix_new t elements =
     (case initMatrix t (singletons elements) [] of
        Inl e \<Rightarrow> Inl e
      | Inr m \<Rightarrow>
          Inr \<lparr>matrix = m, numClusters = int (length elements), allocated = length elements\<rparr>)"

definition clustersAndDistances :: "table \<Rightarrow> entry list" where
  "clustersAndDistances m =
     concat (map (\<lambda>(outerKey, row).
        map (\<lambda>(innerKey, storedDistance).
          \<lparr>entry_a = outerKey, entry_b = innerKey, entry_distance = storedDistance\<rparr>) row) m)"

text \<open>
  Modelled from the spec: the loop of \<^verbatim>\<open>min\<close> of \<^verbatim>\<open>utils.js\<close>, which is not among the
  sources. The spec has the scan return the entry of minimum distance, the first minimal
  entry encountered winning: a later item replaces the best so far only when its key is
  strictly smaller.
\<close>

fun minLoop :: "('a \<Rightarrow> jsnum) \<Rightarrow> 'a list \<Rightarrow> 'a \<Rightarrow> 'a" where
  "minLoop by [] minSoFar = minSoFar"
| "minLoop by (item # items) minSoFar =
     minLoop by items (if js_lt (by item) (by minSoFar) then item else minSoFar)"

text \<open>
  Modelled from the spec: \<^verbatim>\<open>min(iterable, by)\<close> of \<^verbatim>\<open>utils.js\<close>, which is not among the
  sources: the first item starts as the best so far. The spec says nothing of an empty
  scan; it is reported as an error of its own.
\<close>

definition min_by :: "'a list \<Rightarrow> ('a \<Rightarrow> jsnum) \<Rightarrow> error + 'a" where
  "min_by iterable by =
     (case iterable of [] \<Rightarrow> Inl EmptyIterable | item # items \<Rightarrow> Inr (minLoop by items item))"

definition closest :: "DistanceMatrix \<Rightarrow> error + entry" where
  "closest self =
     (if numClusters self < 2 then Inl InsufficientClusters
      else min_by (clustersAndDistances (matrix self)) entry_distance)"

text \<open>\<^verbatim>\<open>_cachedDistance\<close>: \<open>None\<close> is \<^verbatim>\<open>undefined\<close>; \<^verbatim>\<open>get\<close> of a missing row is a
  TypeError.\<close>

definition cachedDistance :: "table \<Rightarrow> cluster \<Rightarrow> cluster \<Rightarrow> error + jsnum option" where
  "cachedDistance m clusterA clusterB =
     (case map_of m clusterA of
        None \<Rightarrow> Inl TypeError
      | Some rowA \<Rightarrow>
          (case map_of rowA clusterB of
             Some ret \<Rightarrow> Inr (Some ret)
           | None \<Rightarrow>
               (case map_of m clusterB of
                  None \<Rightarrow> Inl TypeError
                | Some rowB \<Rightarrow> Inr (map_of rowB clusterA))))"

text \<open>The first loop of \<^verbatim>\<open>merge\<close>: the new row, from the cached distances only.\<close>

fun mergeRow :: "table \<Rightarrow> cluster \<Rightarrow> cluster \<Rightarrow> cluster list \<Rightarrow> row \<Rightarrow> error + row" where
  "mergeRow m clusterA clusterB [] newRow = Inr newRow"
| "mergeRow m clusterA clusterB (outerKey # keys) newRow =
     (if outerKey \<noteq> clusterA \<and> outerKey \<noteq> clusterB then
        (case cachedDistance m clusterA outerKey of
           Inl e \<Rightarrow> Inl e
         | Inr x \<Rightarrow>
            (case cachedDistance m clusterB outerKey of
               Inl e \<Rightarrow> Inl e
             | Inr y \<Rightarrow>
                 mergeRow m clusterA clusterB keys
                   (AList.update outerKey (Math_min (toNumber x) (toNumber y)) newRow)))
      else mergeRow m clusterA clusterB keys newRow)"

definition merge :: "DistanceMatrix \<Rightarrow> cluster \<Rightarrow> cluster \<Rightarrow> error + DistanceMatrix" where
  "merge self clusterA clusterB =
     (case mergeRow (matrix self) clusterA clusterB (map fst (matrix self)) [] of
        Inl e \<Rightarrow> Inl e
      | Inr newRow \<Rightarrow>
          (let rows = AList.delete clusterB (AList.delete clusterA (matrix self));
               rows' = map (\<lambda>(key, inner).
                         (key, AList.delete clusterB (AList.delete clusterA inner))) rows
           in Inr \<lparr>matrix = AList.update (Merged (allocated self) clusterA clusterB) newRow rows',
                   numClusters = numClusters self - 1,
                   allocated = Suc (allocated self)\<rparr>))"

text \<open>
  \<^verbatim>\<open>flatten(false, e)\<close> of the \<^verbatim>\<open>wu\<close> library yields the items of \<^verbatim>\<open>e\<close>, descending into
  every item that is iterable and not a string. The nested arrays of a cluster are
  iterable; so is a node with indexed items (a \<^verbatim>\<open>select\<close> yields its options, a \<^verbatim>\<open>form\<close> its
  controls), and \<^verbatim>\<open>flatten\<close> puts the items in the place of such a node. What a node yields
  depends on more than the shape of the tree (option groups, form owners), so it is a
  parameter of the model: the iteration of a node is \<open>NotIterable\<close>, or the items it yields,
  each with its own iteration.
\<close>

datatype iteration = NotIterable | Yields "(node \<times> iteration) list"

fun flattenNode :: "node \<Rightarrow> iteration \<Rightarrow> node list" where
  "flattenNode x NotIterable = [x]"
| "flattenNode x (Yields items) = concat (map (\<lambda>(y, inner). flattenNode y inner) items)"

fun flatten :: "(node \<Rightarrow> iteration) \<Rightarrow> cluster \<Rightarrow> node list" where
  "flatten iterOf (Single i el) = flattenNode el (iterOf el)"
| "flatten iterOf (Merged i x y) = flatten iterOf x @ flatten iterOf y"

definition clusters_of :: "(node \<Rightarrow> iteration) \<Rightarrow> DistanceMatrix \<Rightarrow> node list list" where
  "clusters_of iterOf self = map (\<lambda>(key, row). flatten iterOf key) (matrix self)"

section \<open>clusters\<close>

lemma merge_numClusters: "merge self x y = Inr self' \<Longrightarrow> numClusters self' = numClusters self - 1"
  by (auto simp: merge_def Let_def split: sum.splits)

function mergeLoop :: "DistanceMatrix \<Rightarrow> jsnum \<Rightarrow> error + DistanceMatrix" where
  "mergeLoop m tooFar =
     (if numClusters m > 1 then
        (case closest m of
           Inl e \<Rightarrow> Inl e
         | Inr c \<Rightarrow>
             if js_lt (entry_distance c) tooFar then
               (case merge m (entry_a c) (entry_b c) of
                  Inl e \<Rightarrow> Inl e
                | Inr m' \<Rightarrow> mergeLoop m' tooFar)
             else Inr m)
      else Inr m)"
  by pat_completeness auto
termination
  by (relation "measure (\<lambda>(m, tooFar). nat (numClusters m))")
     (auto dest: merge_numClusters)

declare mergeLoop.simps [simp del]

definition clusters ::
  "dom \<Rightarrow> (node \<Rightarrow> iteration) \<Rightarrow> node list \<Rightarrow> jsnum \<Rightarrow> error + node list list" where
  "clusters t iterOf elements tooFar =
     (case DistanceMatrix_new t elements of
        Inl e \<Rightarrow> Inl e
      | Inr m \<Rightarrow>
          (case mergeLoop m tooFar of
             Inl e \<Rightarrow> Inl e
           | Inr m' \<Rightarrow> Inr (clusters_of iterOf m')))"

section \<open>The two walks of numStrides\<close>

text \<open>
  The spec describes \<open>numStrides\<close> by the nodes its two walks visit. The definitions of
  this section follow the spec's words: the siblings after a node and before it, the nodes
  the forward walk visits before it reaches \<open>right\<close> or runs out, whether it lands on
  \<open>right\<close>, and the nodes the backward walk visits from \<open>right\<close> to the start of the list.
\<close>

definition followingSiblings :: "dom \<Rightarrow> node \<Rightarrow> node list" where
  "followingSiblings t p =
     (if p = [] then []
      else case lookup t (butlast p) of
             None \<Rightarrow> []
           | Some parent \<Rightarrow>
               map (\<lambda>k. butlast p @ [k]) [Suc (last p) ..< length (childNodes parent)])"

definition precedingSiblings :: "node \<Rightarrow> node list" where
  "precedingSiblings p =
     (if p = [] then [] else map (\<lambda>k. butlast p @ [k]) (rev [0 ..< last p]))"

definition nonSkippable :: "dom \<Rightarrow> node list \<Rightarrow> nat" where
  "nonSkippable t ps = length (filter (\<lambda>q. \<not> isWhitespace t q) ps)"

definition forwardVisited :: "dom \<Rightarrow> jsref \<Rightarrow> jsref \<Rightarrow> node list" where
  "forwardVisited t left right =
     (case left of
        Ref l \<Rightarrow>
          if left = right then []
          else takeWhile (\<lambda>q. Ref q \<noteq> right) (followingSiblings t l)
      | _ \<Rightarrow> [])"

definition landsOnRight :: "dom \<Rightarrow> jsref \<Rightarrow> jsref \<Rightarrow> bool" where
  "landsOnRight t left right =
     (case left of
        Ref l \<Rightarrow> left = right \<or> (\<exists>q \<in> set (followingSiblings t l). Ref q = right)
      | _ \<Rightarrow> False)"

definition backwardVisited :: "jsref \<Rightarrow> node list" where
  "backwardVisited right = (case right of Ref r \<Rightarrow> precedingSiblings r | _ \<Rightarrow> [])"

section \<open>The matrix as a triangular table\<close>

text \<open>
  The spec's data model: every row holds one entry for each cluster inserted before its own
  key, in insertion order, and nothing else (\<open>lowerTriangular\<close>, with the keys seen so
  far); \<open>numClusters\<close> counts the rows; every stored distance is a number; every key was
  allocated before the next identity to be given out.
\<close>

fun lowerTriangular :: "cluster list \<Rightarrow> table \<Rightarrow> bool" where
  "lowerTriangular seen [] = True"
| "lowerTriangular seen ((key, row) # rest) =
     (key \<notin> set seen \<and> map fst row = seen \<and> lowerTriangular (seen @ [key]) rest)"

definition isNum :: "jsnum \<Rightarrow> bool" where
  "isNum x = (case x of Num n \<Rightarrow> True | _ \<Rightarrow> False)"

definition wellFormed :: "DistanceMatrix \<Rightarrow> bool" where
  "wellFormed self =
     (lowerTriangular [] (matrix self)
      \<and> numClusters self = int (length (matrix self))
      \<and> list_all (\<lambda>(key, row). ident key < allocated self
                      \<and> list_all (\<lambda>(k, d). isNum d) row) (matrix self))"

definition linkage :: "table \<Rightarrow> cluster \<Rightarrow> cluster \<Rightarrow> cluster \<Rightarrow> jsnum" where
  "linkage m clusterA clusterB x =
     (case (cachedDistance m clusterA x, cachedDistance m clusterB x) of
        (Inr dA, Inr dB) \<Rightarrow> Math_min (toNumber dA) (toNumber dB)
      | _ \<Rightarrow> NaN)"

definition liveClusters :: "DistanceMatrix \<Rightarrow> cluster list" where
  "liveClusters self = map fst (matrix self)"

definition others :: "cluster \<Rightarrow> cluster \<Rightarrow> cluster \<Rightarrow> bool" where
  "others a b k = (k \<noteq> a \<and> k \<noteq> b)"

definition strip :: "cluster \<Rightarrow> cluster \<Rightarrow> table \<Rightarrow> table" where
  "strip a b m =
     map (\<lambda>(k, r). (k, filter (\<lambda>(k', d). others a b k') r)) (filter (\<lambda>(k, r). others a b k) m)"

text \<open>The states of a matrix: built by the constructor, then changed by merging two
  distinct live clusters.\<close>

inductive reachable :: "dom \<Rightarrow> DistanceMatrix \<Rightarrow> bool" where
  constructed: "DistanceMatrix_new t elements = Inr self \<Longrightarrow> reachable t self"
| merged: "reachable t self \<Longrightarrow> a \<in> set (liveClusters self) \<Longrightarrow> b \<in> set (liveClusters self)
           \<Longrightarrow> a \<noteq> b \<Longrightarrow> merge self a b = Inr self' \<Longrightarrow> reachable t self'"

section \<open>Sample inputs\<close>

text \<open>A small page: two paragraphs with white space between them, and a span holding a link.\<close>

definition sampleTree :: dom where
  "sampleTree =
     Element ''div''
       [Element ''p'' [Text ''a''], Text '' '', Element ''p'' [],
        Element ''span'' [Element ''a'' []]]"

text \<open>The matrix of the first paragraph, the second paragraph and the link.\<close>

definition sampleMatrix :: DistanceMatrix where
  "sampleMatrix =
     \<lparr>matrix =
        [(Single 0 [0], []),
         (Single 1 [2], [(Single 0 [0], Num 2)]),
         (Single 2 [3, 0], [(Single 0 [0], Num 6), (Single 1 [2], Num 5)])],
      numClusters = 3, allocated = 3\<rparr>"

text \<open>The matrix of the first paragraph alone.\<close>

definition sampleSingle :: DistanceMatrix where
  "sampleSingle = \<lparr>matrix = [(Single 0 [0], [])], numClusters = 1, allocated = 1\<rparr>"



text \<open>A page where no node is iterable.\<close>

definition noIteration :: "node \<Rightarrow> iteration" where
  "noIteration x = NotIterable"

text \<open>A \<^verbatim>\<open>select\<close> with two options, followed by a paragraph; the \<^verbatim>\<open>select\<close> yields its
  options, no other node is iterable.\<close>

definition sampleSelect :: dom where
  "sampleSelect =
     Element ''div''
       [Element ''select'' [Element ''option'' [], Element ''option'' []], Element ''p'' []]"

definition selectIteration :: "node \<Rightarrow> iteration" where
  "selectIteration x =
     (if x = [0] then Yields [([0, 0], NotIterable), ([0, 1], NotIterable)] else NotIterable)"

section \<open>Properties of numStrides\<close>

lemma walkRight_same: "walkRight t r r num = (r, num)"
  by (subst walkRight.simps) (simp split: jsref.splits)

lemma walkRight_not_node: "\<not> truthy s \<Longrightarrow> walkRight t s r num = (s, num)"
  by (subst walkRight.simps) (simp add: truthy_def split: jsref.splits)

lemma followingSiblings_next:
  "nextSibling t l = Some q \<Longrightarrow> followingSiblings t l = q # followingSiblings t q"
  by (auto simp: nextSibling_def followingSiblings_def upt_conv_Cons
           split: if_splits option.splits)

lemma followingSiblings_end: "nextSibling t l = None \<Longrightarrow> followingSiblings t l = []"
  by (auto simp: nextSibling_def followingSiblings_def split: if_splits option.splits)

lemma walkRight_following:
  "Ref l \<noteq> right \<Longrightarrow>
   walkRight t (Ref l) right num =
     (if \<exists>q \<in> set (followingSiblings t l). Ref q = right then right else Null,
      num + nonSkippable t (takeWhile (\<lambda>q. Ref q \<noteq> right) (followingSiblings t l)))"
proof (induction "followingSiblings t l" arbitrary: l num)
  case Nil
  have "nextSibling t l = None"
  proof (cases "nextSibling t l")
    case (Some q)
    from followingSiblings_next[OF this] Nil.hyps show ?thesis by simp
  qed simp
  with Nil show ?case
    by (subst walkRight.simps) (simp add: ref_of_def nonSkippable_def Nil.hyps[symmetric])
next
  case (Cons q qs)
  have nxt: "nextSibling t l = Some q"
  proof (cases "nextSibling t l")
    case None
    from followingSiblings_end[OF this] Cons.hyps(2) show ?thesis by simp
  next
    case (Some q')
    from followingSiblings_next[OF this] Cons.hyps(2) Some show ?thesis by simp
  qed
  then have fq: "qs = followingSiblings t q"
    using followingSiblings_next[OF nxt] Cons.hyps(2) by simp
  show ?case
  proof (cases "Ref q = right")
    case True
    then have r: "right = Ref q" by simp
    from Cons.prems nxt show ?thesis unfolding r
      by (subst walkRight.simps)
         (simp add: ref_of_def truthy_def walkRight_same nonSkippable_def Cons.hyps(2)[symmetric])
  next
    case False
    from Cons.hyps(1)[OF fq False] Cons.prems nxt False show ?thesis
      by (subst walkRight.simps)
         (simp add: ref_of_def truthy_def nonSkippable_def Cons.hyps(2)[symmetric] fq)
  qed
qed

lemma walkLeft_not_node: "\<not> truthy s \<Longrightarrow> walkLeft t s num = num"
  by (subst walkLeft.simps) (simp add: truthy_def split: jsref.splits)

lemma walkLeft_preceding:
  "walkLeft t (Ref r) num = num + nonSkippable t (precedingSiblings r)"
proof (induction "precedingSiblings r" arbitrary: r num)
  case Nil
  then have "previousSibling r = None"
    by (auto simp: precedingSiblings_def previousSibling_def split: if_splits)
  with Nil show ?case
    by (subst walkLeft.simps)
       (simp add: ref_of_def nonSkippable_def walkLeft_not_node truthy_def Nil.hyps[symmetric])
next
  case (Cons q qs)
  then have ne: "r \<noteq> []"
    by (auto simp: precedingSiblings_def split: if_splits)
  have pos: "0 < last r"
  proof (rule ccontr)
    assume "\<not> 0 < last r"
    then have "precedingSiblings r = []" by (simp add: precedingSiblings_def)
    with Cons.hyps(2) show False by simp
  qed
  with ne have prev: "previousSibling r = Some (butlast r @ [last r - 1])"
    by (simp add: previousSibling_def)
  from pos obtain n where n: "last r = Suc n" by (cases "last r") auto
  have q: "q = butlast r @ [n]" and qs: "qs = precedingSiblings q"
    using Cons.hyps(2) ne n by (auto simp: precedingSiblings_def)
  from Cons.hyps(1)[OF qs] prev n q qs show ?case
    by (subst walkLeft.simps)
       (simp add: ref_of_def nonSkippable_def Cons.hyps(2)[symmetric])
qed

text \<open>
  C8. \<open>numStrides(left, right)\<close> is the number of non-skippable nodes visited walking
  forward from \<open>left\<close> until \<open>right\<close> or the end of the siblings, plus, exactly when that
  walk did not land on \<open>right\<close>, the number of non-skippable nodes before \<open>right\<close> in its
  sibling list; when the forward walk reaches \<open>right\<close> the backward walk adds nothing.
\<close>

theorem numStrides_two_walks:
  "numStrides t left right =
     nonSkippable t (forwardVisited t left right)
     + (if landsOnRight t left right then 0 else nonSkippable t (backwardVisited right))"
proof (cases left)
  case (Ref l)
  show ?thesis
  proof (cases "left = right")
    case True
    with Ref have "right = Ref l" by simp
    with Ref show ?thesis
      by (simp add: numStrides_def walkRight_same forwardVisited_def landsOnRight_def
          nonSkippable_def)
  next
    case False
    with Ref have neq: "Ref l \<noteq> right" by simp
    show ?thesis
    proof (cases right)
      case (Ref r)
      with neq \<open>left = Ref l\<close> show ?thesis
        by (auto simp: numStrides_def walkRight_following forwardVisited_def
            landsOnRight_def backwardVisited_def walkLeft_preceding)
    next
      case Undefined
      with neq \<open>left = Ref l\<close> show ?thesis
        by (auto simp: numStrides_def walkRight_following forwardVisited_def
            landsOnRight_def backwardVisited_def walkLeft_not_node truthy_def nonSkippable_def)
    next
      case Null
      with neq \<open>left = Ref l\<close> show ?thesis
        by (auto simp: numStrides_def walkRight_following forwardVisited_def
            landsOnRight_def backwardVisited_def walkLeft_not_node truthy_def nonSkippable_def)
    qed
  qed
next
  case Undefined
  show ?thesis
    by (cases right)
       (simp_all add: Undefined numStrides_def walkRight_not_node forwardVisited_def landsOnRight_def
          backwardVisited_def walkLeft_preceding nonSkippable_def walkLeft_not_node truthy_def)
next
  case Null
  show ?thesis
    by (cases right)
       (simp_all add: Null numStrides_def walkRight_not_node forwardVisited_def landsOnRight_def
          backwardVisited_def walkLeft_preceding nonSkippable_def walkLeft_not_node truthy_def)
qed

section \<open>distance and its ancestor chains\<close>

lemma ascendA_to_ancestor:
  "prefix b cur \<Longrightarrow> \<exists>acc'. ascendA cur b acc = Inr (b, acc')"
proof (induction cur b acc rule: ascendA.induct)
  case (1 aAncestor elementB aAncestors)
  show ?case
  proof (cases "contains aAncestor elementB")
    case True
    with "1.prems" have "aAncestor = elementB"
      by (simp add: contains_def prefix_order.antisym)
    with True show ?thesis by (subst ascendA.simps) simp
  next
    case False
    with "1.prems" have ne: "aAncestor \<noteq> []" and neq: "aAncestor \<noteq> elementB"
      by (auto simp: contains_def)
    then have par: "parentNode aAncestor = Some (butlast aAncestor)"
      by (simp add: parentNode_def)
    from "1.prems" neq have "strict_prefix elementB aAncestor" by (simp add: strict_prefix_def)
    then have "prefix elementB (butlast aAncestor)"
      using ne by (metis append_butlast_last_id prefix_snoc strict_prefix_def)
    from "1.IH"[OF False par this] False par show ?thesis
      by (subst ascendA.simps) simp
  qed
qed

lemma ascendB_leaves_tree:
  "\<not> strict_prefix target cur \<Longrightarrow> ascendB cur target acc = Inl TypeError"
proof (induction cur target acc rule: ascendB.induct)
  case (1 bAncestor aAncestor bAncestors)
  show ?case
  proof (cases "bAncestor = []")
    case True
    then show ?thesis by (subst ascendB.simps) (simp add: parentNode_def)
  next
    case False
    then have par: "parentNode bAncestor = Some (butlast bAncestor)"
      by (simp add: parentNode_def)
    have sp: "strict_prefix (butlast bAncestor) bAncestor"
      using False by (metis append_butlast_last_id strict_prefixI' )
    with "1.prems" have neq: "butlast bAncestor \<noteq> aAncestor" by auto
    have "\<not> strict_prefix aAncestor (butlast bAncestor)"
      using "1.prems" sp by (meson prefix_order.less_trans)
    from "1.IH"[OF par neq this] par neq show ?thesis
      by (subst ascendB.simps) simp
  qed
qed

subsection \<open>When distance returns, and where it is symmetric\<close>

lemma ascendA_returns:
  "\<exists>c acc'. ascendA cur b acc = Inr (c, acc') \<and> prefix c cur \<and> prefix c b"
proof (induction cur b acc rule: ascendA.induct)
  case (1 aAncestor elementB aAncestors)
  show ?case
  proof (cases "contains aAncestor elementB")
    case True
    then show ?thesis by (subst ascendA.simps) (simp add: contains_def)
  next
    case False
    then have ne: "aAncestor \<noteq> []" by (auto simp: contains_def)
    then have par: "parentNode aAncestor = Some (butlast aAncestor)"
      by (simp add: parentNode_def)
    from "1.IH"[OF False par] obtain c acc' where
      c: "ascendA (butlast aAncestor) elementB (aAncestors @ [butlast aAncestor]) = Inr (c, acc')"
         "prefix c (butlast aAncestor)" "prefix c elementB" by blast
    have "prefix (butlast aAncestor) aAncestor" by (simp add: prefixeq_butlast)
    with c(2) have "prefix c aAncestor" by (rule prefix_order.trans)
    with c False par show ?thesis by (subst ascendA.simps) simp
  qed
qed

lemma ascendB_returns:
  "strict_prefix c cur \<Longrightarrow> \<exists>acc'. ascendB cur c acc = Inr acc'"
proof (induction cur c acc rule: ascendB.induct)
  case (1 bAncestor aAncestor bAncestors)
  then have ne: "bAncestor \<noteq> []" by auto
  then have par: "parentNode bAncestor = Some (butlast bAncestor)"
    by (simp add: parentNode_def)
  show ?case
  proof (cases "butlast bAncestor = aAncestor")
    case True
    with par show ?thesis by (subst ascendB.simps) simp
  next
    case False
    from "1.prems" ne have "prefix aAncestor (butlast bAncestor)"
      by (metis append_butlast_last_id prefix_snoc strict_prefix_def)
    with False have "strict_prefix aAncestor (butlast bAncestor)" by (simp add: strict_prefix_def)
    from "1.IH"[OF par False this] par False show ?thesis by (subst ascendB.simps) simp
  qed
qed

lemma distance_returns:
  assumes "\<not> strict_prefix b a"
  shows "\<exists>d. distance t a b = Inr d"
proof (cases "a = b")
  case True
  then show ?thesis by (simp add: distance_def)
next
  case False
  from ascendA_returns[of a b "[a]"] obtain c as where
    A: "ascendA a b [a] = Inr (c, as)" "prefix c a" "prefix c b" by blast
  have "c \<noteq> b" using A(2) assms False by (auto simp: strict_prefix_def)
  with A(3) have "strict_prefix c b" by (simp add: strict_prefix_def)
  from ascendB_returns[OF this, of "[b]"] obtain bs where B: "ascendB b c [b] = Inr bs" by blast
  from False A(1) B show ?thesis by (simp add: distance_def Let_def)
qed

lemma ascendA_stops_or_climbs:
  "ascendA cur b acc = Inr (c, acc') \<Longrightarrow>
   (contains cur b \<and> c = cur \<and> acc' = acc) \<or> (\<not> contains cur b \<and> length c < length cur)"
proof (induction cur b acc rule: ascendA.induct)
  case (1 aAncestor elementB aAncestors)
  show ?case
  proof (cases "contains aAncestor elementB")
    case True
    with "1.prems" show ?thesis by (subst (asm) ascendA.simps) simp
  next
    case False
    show ?thesis
    proof (cases "parentNode aAncestor")
      case None
      with False "1.prems" show ?thesis by (subst (asm) ascendA.simps) simp
    next
      case (Some parent)
      with False "1.prems" have rec: "ascendA parent elementB (aAncestors @ [parent]) = Inr (c, acc')"
        by (subst (asm) ascendA.simps) simp
      from Some have "length parent < length aAncestor"
        by (auto simp: parentNode_def split: if_splits)
      with "1.IH"[OF False Some rec] False show ?thesis by auto
    qed
  qed
qed

lemma ascendA_common_ancestor:
  "ascendA cur b acc = Inr (c, acc') \<Longrightarrow>
   prefix c b \<and> (\<forall>x. prefix x cur \<and> prefix x b \<longrightarrow> prefix x c)"
proof (induction cur b acc rule: ascendA.induct)
  case (1 aAncestor elementB aAncestors)
  show ?case
  proof (cases "contains aAncestor elementB")
    case True
    with "1.prems" show ?thesis by (subst (asm) ascendA.simps) (simp add: contains_def)
  next
    case False
    show ?thesis
    proof (cases "parentNode aAncestor")
      case None
      with False "1.prems" show ?thesis by (subst (asm) ascendA.simps) simp
    next
      case (Some parent)
      with False "1.prems" have rec: "ascendA parent elementB (aAncestors @ [parent]) = Inr (c, acc')"
        by (subst (asm) ascendA.simps) simp
      from Some have ne: "aAncestor \<noteq> []" and par: "parent = butlast aAncestor"
        by (auto simp: parentNode_def split: if_splits)
      have up: "prefix x parent" if "prefix x aAncestor" "prefix x elementB" for x
      proof -
        from that False have "x \<noteq> aAncestor" by (auto simp: contains_def)
        with that(1) have "strict_prefix x aAncestor" by (simp add: strict_prefix_def)
        with ne par show ?thesis
          by (metis append_butlast_last_id prefix_snoc strict_prefix_def)
      qed
      from "1.IH"[OF False Some rec] up show ?thesis by blast
    qed
  qed
qed

lemma ascendB_target_above: "ascendB cur c acc = Inr acc' \<Longrightarrow> strict_prefix c cur"
  using ascendB_leaves_tree[of c cur acc] by auto

text \<open>The chain the first loop builds from A is the chain the second loop would build.\<close>

lemma ascendA_as_ascendB:
  "ascendA cur b acc = Inr (c, acc') \<Longrightarrow> c \<noteq> cur \<Longrightarrow> ascendB cur c acc = Inr acc'"
proof (induction cur b acc rule: ascendA.induct)
  case (1 aAncestor elementB aAncestors)
  from ascendA_stops_or_climbs[OF "1.prems"(1)] "1.prems"(2)
  have nc: "\<not> contains aAncestor elementB" by auto
  show ?case
  proof (cases "parentNode aAncestor")
    case None
    with nc "1.prems" show ?thesis by (subst (asm) ascendA.simps) simp
  next
    case (Some parent)
    with nc "1.prems" have rec: "ascendA parent elementB (aAncestors @ [parent]) = Inr (c, acc')"
      by (subst (asm) ascendA.simps) simp
    show ?thesis
    proof (cases "parent = c")
      case True
      with ascendA_stops_or_climbs[OF rec] have "acc' = aAncestors @ [parent]" by auto
      with Some True show ?thesis by (subst ascendB.simps) simp
    next
      case False
      then have "c \<noteq> parent" by simp
      from "1.IH"[OF nc Some rec this] Some False show ?thesis by (subst ascendB.simps) simp
    qed
  qed
qed

text \<open>And the chain the second loop builds from B is the chain the first loop would build.\<close>

lemma ascendB_as_ascendA:
  assumes "ascendB cur c acc = Inr acc'" "prefix cur b" "prefix c a"
    "\<forall>x. prefix x a \<and> prefix x b \<longrightarrow> prefix x c"
  shows "ascendA cur a acc = Inr (c, acc')"
  using assms
proof (induction cur c acc rule: ascendB.induct)
  case (1 bAncestor aAncestor bAncestors)
  from ascendB_target_above[OF "1.prems"(1)] have sp: "strict_prefix aAncestor bAncestor" .
  have nc: "\<not> contains bAncestor a"
  proof
    assume "contains bAncestor a"
    with "1.prems"(2,4) have "prefix bAncestor aAncestor" by (simp add: contains_def)
    with sp show False by auto
  qed
  from sp have ne: "bAncestor \<noteq> []" by auto
  then have par: "parentNode bAncestor = Some (butlast bAncestor)" by (simp add: parentNode_def)
  show ?case
  proof (cases "butlast bAncestor = aAncestor")
    case True
    with par "1.prems"(1) have "acc' = bAncestors @ [aAncestor]"
      by (subst (asm) ascendB.simps) simp
    moreover have "ascendA aAncestor a (bAncestors @ [aAncestor]) = Inr (aAncestor, bAncestors @ [aAncestor])"
      using "1.prems"(3) by (subst ascendA.simps) (simp add: contains_def)
    ultimately show ?thesis using nc par True by (subst ascendA.simps) simp
  next
    case False
    with par "1.prems"(1) have rec:
      "ascendB (butlast bAncestor) aAncestor (bAncestors @ [butlast bAncestor]) = Inr acc'"
      by (subst (asm) ascendB.simps) simp
    have "prefix (butlast bAncestor) bAncestor" by (simp add: prefixeq_butlast)
    from prefix_order.trans[OF this "1.prems"(2)] have "prefix (butlast bAncestor) b" .
    from "1.IH"[OF par False rec this "1.prems"(3,4)] nc par show ?thesis
      by (subst ascendA.simps) simp
  qed
qed

lemma before_unrelated:
  "\<not> prefix a b \<Longrightarrow> \<not> prefix b a \<Longrightarrow> before a b = (\<not> before b a)"
  by (induction a b rule: before.induct) auto

lemma distance_symmetric_unrelated:
  assumes "\<not> prefix a b" "\<not> prefix b a"
  shows "distance t a b = distance t b a \<and> (\<exists>d. distance t a b = Inr d)"
proof -
  from assms have neq: "a \<noteq> b" "b \<noteq> a" by auto
  from ascendA_returns[of a b "[a]"] obtain c as where
    A: "ascendA a b [a] = Inr (c, as)" "prefix c a" "prefix c b" by blast
  from ascendA_common_ancestor[OF A(1)]
  have top: "\<forall>x. prefix x a \<and> prefix x b \<longrightarrow> prefix x c" by simp
  have ca: "c \<noteq> a" and cb: "c \<noteq> b" using A(2,3) assms by auto
  from cb A(3) have "strict_prefix c b" by (simp add: strict_prefix_def)
  from ascendB_returns[OF this, of "[b]"] obtain bs where B: "ascendB b c [b] = Inr bs" by blast
  have A': "ascendA b a [b] = Inr (c, bs)"
    by (rule ascendB_as_ascendA[OF B _ A(2) top]) simp
  have B': "ascendB a c [a] = Inr as"
    by (rule ascendA_as_ascendB[OF A(1) ca])
  note flags = DOCUMENT_POSITION_FOLLOWING_def DOCUMENT_POSITION_PRECEDING_def
    DOCUMENT_POSITION_CONTAINS_def DOCUMENT_POSITION_CONTAINED_BY_def
  have ab: "distance t a b =
              (if before b a then Inr (descend t True bs as 0) else Inr (descend t True as bs 0))"
    using neq(1) assms by (simp add: distance_def A(1) B compareDocumentPosition_def flags)
  have ba: "distance t b a =
              (if before a b then Inr (descend t True as bs 0) else Inr (descend t True bs as 0))"
    using neq(2) assms by (simp add: distance_def A' B' compareDocumentPosition_def flags)
  from ab ba before_unrelated[OF assms] show ?thesis by auto
qed

text \<open>
  C1. The spec has \<open>distance(a, b) = distance(b, a)\<close> for every pair of nodes, both calls
  returning also when one node is an ancestor of the other. Where neither node contains the
  other the two calls do return the same value (\<open>distance_symmetric_unrelated\<close>). On the
  sample page, from the root to its first child the distance is 3; from the child to the
  root the second loop walks off the tree and the call throws.
\<close>

theorem distance_not_symmetric_on_ancestor:
  "distance sampleTree [0] [] = Inl TypeError \<and> distance sampleTree [] [0] = Inr 3"
  by code_simp

text \<open>
  C2. The spec has \<open>distance\<close> return a number for every two nodes of a tree, also when
  the second is an ancestor of the first. Whenever B is a proper ancestor of A, the first
  loop stops at B itself, and the second loop, which tests only after its first step up,
  never meets B again: the call throws a TypeError at the root's \<^verbatim>\<open>null\<close> parent.
\<close>

theorem distance_throws_on_ancestor:
  "strict_prefix b a \<Longrightarrow> distance t a b = Inl TypeError"
proof -
  assume sp: "strict_prefix b a"
  then have neq: "a \<noteq> b" by auto
  from sp obtain acc where A: "ascendA a b [a] = Inr (b, acc)"
    using ascendA_to_ancestor[of b a "[a]"] by (auto simp: strict_prefix_def)
  have B: "ascendB b b [b] = Inl TypeError"
    by (rule ascendB_leaves_tree) simp
  show ?thesis using neq A B by (simp add: distance_def)
qed

theorem distance_throws_on_ancestor_witness:
  "strict_prefix [3] [3, 0::nat] \<and> distance sampleTree [3, 0] [3] = Inl TypeError"
  using distance_throws_on_ancestor[of "[3]" "[3, 0]" sampleTree] by simp

subsection \<open>A lower bound\<close>

lemma descend_lower_bound:
  "cost + max (length left) (length right) \<le> descend t mightStride left right cost"
proof (induction t mightStride left right cost rule: descend.induct)
  case (1 t mightStride left right cost)
  show ?case
  proof (cases "left \<noteq> [] \<or> right \<noteq> []")
    case False
    then show ?thesis by (subst descend.simps) simp
  next
    case True
    obtain l left' where pl: "pop left = (l, left')" by (cases "pop left")
    obtain r right' where pr: "pop right = (r, right')" by (cases "pop right")
    let ?step = "(if l = None \<or> r = None then DIFFERENT_DEPTH_COST
                 else if tagName t (the l) = tagName t (the r) then SAME_TAG_COST
                 else DIFFERENT_TAG_COST)
              + (if mightStride then numStrides t (operand l) (operand r) * STRIDE_COST
                 else 0)"
    have step: "1 \<le> ?step"
      by (simp add: DIFFERENT_DEPTH_COST_def SAME_TAG_COST_def DIFFERENT_TAG_COST_def)
    have len: "length left \<le> Suc (length left')" "length right \<le> Suc (length right')"
      using pl pr by (auto simp: pop_def split: if_splits)
    have IH: "cost + ?step + max (length left') (length right')
                \<le> descend t mightStride left' right' (cost + ?step)"
      using "1.IH"[OF True pl[symmetric] pr[symmetric]] by (simp add: add.assoc)
    have unfold: "descend t mightStride left right cost
                    = descend t mightStride left' right' (cost + ?step)"
      using True pl pr by (subst descend.simps) (simp add: add.assoc)
    show ?thesis using IH step len unfolding unfold by linarith
  qed
qed

lemma ascendA_length:
  "ascendA cur b acc = Inr (c, acc') \<Longrightarrow> length acc \<le> length acc'"
proof (induction cur b acc rule: ascendA.induct)
  case (1 aAncestor elementB aAncestors)
  show ?case
  proof (cases "contains aAncestor elementB")
    case True
    with "1.prems" show ?thesis by (subst (asm) ascendA.simps) simp
  next
    case False
    show ?thesis
    proof (cases "parentNode aAncestor")
      case None
      with False "1.prems" show ?thesis by (subst (asm) ascendA.simps) simp
    next
      case (Some parent)
      with False "1.prems" have "ascendA parent elementB (aAncestors @ [parent]) = Inr (c, acc')"
        by (subst (asm) ascendA.simps) simp
      from "1.IH"[OF False Some this] show ?thesis by simp
    qed
  qed
qed

lemma ascendB_length:
  "ascendB cur target acc = Inr acc' \<Longrightarrow> Suc (length acc) \<le> length acc'"
proof (induction cur target acc rule: ascendB.induct)
  case (1 bAncestor aAncestor bAncestors)
  show ?case
  proof (cases "parentNode bAncestor")
    case None
    with "1.prems" show ?thesis by (subst (asm) ascendB.simps) simp
  next
    case (Some parent)
    show ?thesis
    proof (cases "parent = aAncestor")
      case True
      with Some "1.prems" show ?thesis by (subst (asm) ascendB.simps) auto
    next
      case False
      with Some "1.prems" have "ascendB parent aAncestor (bAncestors @ [parent]) = Inr acc'"
        by (subst (asm) ascendB.simps) simp
      from "1.IH"[OF Some False this] show ?thesis by simp
    qed
  qed
qed

text \<open>
  C10. For every pair of distinct nodes on which \<open>distance\<close> returns, the value is at least
  2: B's chain holds B and at least one ancestor, every round of the descent pops one level
  and adds at least 1. So no two distinct nodes are at distance 0 or 1.
\<close>

theorem distance_distinct_at_least_2:
  "a \<noteq> b \<Longrightarrow> distance t a b = Inr d \<Longrightarrow> 2 \<le> d"
proof -
  assume neq: "a \<noteq> b" and d: "distance t a b = Inr d"
  from neq d obtain c as where A: "ascendA a b [a] = Inr (c, as)"
    by (auto simp: distance_def split: sum.splits)
  from neq d A obtain bs where B: "ascendB b c [b] = Inr bs"
    by (auto simp: distance_def split: sum.splits)
  have la: "1 \<le> length as" using ascendA_length[OF A] by simp
  have lb: "2 \<le> length bs" using ascendB_length[OF B] by simp
  from neq d A B have "d = descend t (and (compareDocumentPosition a b) DOCUMENT_POSITION_CONTAINED_BY = 0) as bs 0
     \<or> d = descend t (and (compareDocumentPosition a b) DOCUMENT_POSITION_CONTAINS = 0) bs as 0
     \<or> d = descend t False as bs 0"
    by (auto simp: distance_def Let_def split: if_splits)
  then show ?thesis
    using lb descend_lower_bound[of 0 as bs t]  descend_lower_bound[of 0 bs as t] 
    by (smt (verit) add_0 le_trans max.bounded_iff)
qed

theorem distance_distinct_at_least_2_witness:
  "[0::nat] \<noteq> [3, 0] \<and> distance sampleTree [0] [3, 0] = Inr 6 \<and> (2::nat) \<le> 6"
proof -
  have d: "distance sampleTree [0] [3, 0] = Inr 6" by code_simp
  have "[0::nat] \<noteq> [3, 0]" by simp
  from distance_distinct_at_least_2[OF this d] d show ?thesis by simp
qed

subsection \<open>Siblings\<close>

lemma nextSibling_child:
  "lookup t par = Some parent \<Longrightarrow>
   nextSibling t (par @ [i]) =
     (if Suc i < length (childNodes parent) then Some (par @ [Suc i]) else None)"
  by (simp add: nextSibling_def)

lemma walkRight_over_whitespace:
  assumes par: "lookup t par = Some parent" and j: "j < length (childNodes parent)"
  shows "i \<le> j \<Longrightarrow> (\<forall>k. i < k \<and> k < j \<longrightarrow> isWhitespace t (par @ [k])) \<Longrightarrow>
         walkRight t (Ref (par @ [i])) (Ref (par @ [j])) num = (Ref (par @ [j]), num)"
proof (induction "j - i" arbitrary: i)
  case 0
  then have "i = j" by simp
  then show ?case by (simp add: walkRight_same)
next
  case (Suc n)
  then have lt: "i < j" by simp
  with j have nxt: "nextSibling t (par @ [i]) = Some (par @ [Suc i])"
    by (simp add: nextSibling_child[OF par])
  have IH: "walkRight t (Ref (par @ [Suc i])) (Ref (par @ [j])) num = (Ref (par @ [j]), num)"
    using Suc.hyps(1)[of "Suc i"] Suc.hyps(2) Suc.prems lt by auto
  show ?case
  proof (cases "Suc i = j")
    case True
    with lt nxt show ?thesis
      by (subst walkRight.simps) (simp add: ref_of_def truthy_def walkRight_same)
  next
    case False
    with lt Suc.prems have ws: "isWhitespace t (par @ [Suc i])" by simp
    from lt nxt ws IH show ?thesis
      by (subst walkRight.simps) (simp add: ref_of_def truthy_def)
  qed
qed

lemma numStrides_same: "numStrides t (Ref p) (Ref p) = 0"
  by (simp add: numStrides_def walkRight_same)

lemma numStrides_adjacent:
  assumes "lookup t par = Some parent" "j < length (childNodes parent)" "i \<le> j"
    "\<forall>k. i < k \<and> k < j \<longrightarrow> isWhitespace t (par @ [k])"
  shows "numStrides t (Ref (par @ [i])) (Ref (par @ [j])) = 0"
  using walkRight_over_whitespace[OF assms, of 0] by (simp add: numStrides_def)

lemma descend_two_levels:
  "descend t mightStride [x, c] [y, c] 0 =
     SAME_TAG_COST + (if mightStride then numStrides t (Ref c) (Ref c) * STRIDE_COST else 0)
     + (if tagName t x = tagName t y then SAME_TAG_COST else DIFFERENT_TAG_COST)
     + (if mightStride then numStrides t (Ref x) (Ref y) * STRIDE_COST else 0)"
  by (subst descend.simps, subst descend.simps, subst descend.simps)
     (simp add: pop_def operand_def)

lemma before_siblings: "before (par @ [i]) (par @ [j]) = (i < j)"
  by (induction par) auto

lemma ascendA_sibling:
  "i \<noteq> j \<Longrightarrow> ascendA (par @ [i]) (par @ [j]) acc = Inr (par, acc @ [par])"
  by (subst ascendA.simps, subst ascendA.simps) (simp add: contains_def parentNode_def)

lemma ascendB_sibling: "ascendB (par @ [j]) par acc = Inr (acc @ [par])"
  by (subst ascendB.simps) (simp add: parentNode_def)

lemma compare_siblings:
  "i < j \<Longrightarrow> compareDocumentPosition (par @ [i]) (par @ [j]) = DOCUMENT_POSITION_FOLLOWING"
  "i < j \<Longrightarrow> compareDocumentPosition (par @ [j]) (par @ [i]) = DOCUMENT_POSITION_PRECEDING"
  by (auto simp: compareDocumentPosition_def before_siblings)

text \<open>
  The comments on the costs count a cost for each level below the common ancestor. Were
  only those levels descended, two siblings with the same tag and nothing but white space
  between them would cost the same-tag cost alone.
\<close>

lemma descend_below_common_ancestor:
  assumes "lookup t par = Some parent" "j < length (childNodes parent)" "i < j"
    and "tagName t (par @ [i]) = tagName t (par @ [j])"
    and "\<forall>k. i < k \<and> k < j \<longrightarrow> isWhitespace t (par @ [k])"
  shows "descend t True [par @ [i]] [par @ [j]] 0 = 1"
proof -
  have "numStrides t (Ref (par @ [i])) (Ref (par @ [j])) = 0"
    using assms by (intro numStrides_adjacent) auto
  with assms(4) show ?thesis
    by (subst descend.simps, subst descend.simps)
       (simp add: pop_def operand_def SAME_TAG_COST_def STRIDE_COST_def)
qed

text \<open>
  C3. The spec has two distinct siblings with the same tag and no non-skippable node between
  them at distance exactly 1, the same-tag cost alone, which is what the comments on the
  costs describe: a cost for each level below the common ancestor. The stacks of the code
  hold the common ancestor too, and the loop charges its level as well, the common ancestor
  against itself at the same-tag cost: the code returns 2, in either order of the arguments.
\<close>

theorem distance_adjacent_siblings:
  assumes "lookup t par = Some parent" "j < length (childNodes parent)" "i < j"
    and "tagName t (par @ [i]) = tagName t (par @ [j])"
    and "\<forall>k. i < k \<and> k < j \<longrightarrow> isWhitespace t (par @ [k])"
  shows "distance t (par @ [i]) (par @ [j]) = Inr 2 \<and> distance t (par @ [j]) (par @ [i]) = Inr 2"
proof -
  have strides: "numStrides t (Ref (par @ [i])) (Ref (par @ [j])) = 0"
    using assms by (intro numStrides_adjacent) auto
  have neq: "i \<noteq> j" "j \<noteq> i" using assms(3) by auto
  have "distance t (par @ [i]) (par @ [j]) = Inr 2"
    using neq assms(3,4) strides
    by (simp add: distance_def ascendA_sibling ascendB_sibling compare_siblings
        descend_two_levels numStrides_same DOCUMENT_POSITION_FOLLOWING_def
        DOCUMENT_POSITION_CONTAINED_BY_def SAME_TAG_COST_def STRIDE_COST_def)
  moreover have "distance t (par @ [j]) (par @ [i]) = Inr 2"
    using neq assms(3,4) strides
    by (simp add: distance_def ascendA_sibling ascendB_sibling compare_siblings
        descend_two_levels numStrides_same DOCUMENT_POSITION_FOLLOWING_def
        DOCUMENT_POSITION_PRECEDING_def DOCUMENT_POSITION_CONTAINS_def
        SAME_TAG_COST_def STRIDE_COST_def)
  ultimately show ?thesis by simp
qed

theorem distance_adjacent_siblings_witness:
  "lookup sampleTree [] = Some sampleTree \<and> 2 < length (childNodes sampleTree) \<and> (0::nat) < 2
   \<and> tagName sampleTree [0] = tagName sampleTree [2]
   \<and> isWhitespace sampleTree [1]
   \<and> distance sampleTree [0] [2] = Inr 2 \<and> distance sampleTree [2] [0] = Inr 2"
proof -
  have ws: "isWhitespace sampleTree [1]" by code_simp
  have "\<forall>k. (0::nat) < k \<and> k < 2 \<longrightarrow> isWhitespace sampleTree ([] @ [k])"
  proof (intro allI impI)
    fix k :: nat assume "0 < k \<and> k < 2"
    then have "k = 1" by auto
    with ws show "isWhitespace sampleTree ([] @ [k])" by simp
  qed
  moreover have "tagName sampleTree ([] @ [0]) = tagName sampleTree ([] @ [2])" by code_simp
  moreover have "(2::nat) < length (childNodes sampleTree)" by code_simp
  ultimately show ?thesis
    using distance_adjacent_siblings[of sampleTree "[]" sampleTree 2 0] ws by simp
qed

section \<open>Properties of the matrix\<close>

lemma update_fresh: "k \<notin> fst ` set al \<Longrightarrow> AList.update k v al = al @ [(k, v)]"
  by (induction al) auto

lemma lowerTriangular_snoc:
  "lowerTriangular seen (m @ [(k, row)]) =
     (lowerTriangular seen m \<and> k \<notin> set seen \<and> k \<notin> fst ` set m
      \<and> map fst row = seen @ map fst m)"
proof (induction m arbitrary: seen)
  case Nil
  show ?case by auto
next
  case (Cons p m)
  obtain k' r' where p: "p = (k', r')" by (cases p)
  have "lowerTriangular seen ((k', r') # m @ [(k, row)]) =
          (k' \<notin> set seen \<and> map fst r' = seen \<and> lowerTriangular (seen @ [k']) (m @ [(k, row)]))"
    by simp
  also have "\<dots> = (k' \<notin> set seen \<and> map fst r' = seen \<and> lowerTriangular (seen @ [k']) m
                  \<and> k \<notin> set (seen @ [k']) \<and> k \<notin> fst ` set m
                  \<and> map fst row = (seen @ [k']) @ map fst m)"
    by (simp only: Cons.IH)
  also have "\<dots> = (lowerTriangular seen ((k', r') # m) \<and> k \<notin> set seen
                  \<and> k \<notin> fst ` set ((k', r') # m) \<and> map fst row = seen @ map fst ((k', r') # m))"
    by auto
  finally show ?case by (simp add: p)
qed

lemma lowerTriangular_distinct:
  "lowerTriangular seen m \<Longrightarrow> distinct seen \<Longrightarrow> distinct (seen @ map fst m)"
proof (induction m arbitrary: seen)
  case Nil
  then show ?case by simp
next
  case (Cons p m)
  obtain k row where p: "p = (k, row)" by (cases p)
  with Cons.prems have "lowerTriangular (seen @ [k]) m" "distinct (seen @ [k])" by auto
  from Cons.IH[OF this] p show ?case by simp
qed

lemma lowerTriangular_nth:
  "lowerTriangular seen m \<Longrightarrow> i < length m \<Longrightarrow>
   map fst (snd (m ! i)) = seen @ take i (map fst m)"
proof (induction m arbitrary: seen i)
  case Nil
  then show ?case by simp
next
  case (Cons p m)
  obtain k row where p: "p = (k, row)" by (cases p)
  show ?case
  proof (cases i)
    case 0
    with Cons.prems p show ?thesis by simp
  next
    case (Suc n)
    with Cons.prems p have "lowerTriangular (seen @ [k]) m" "n < length m" by auto
    from Cons.IH[OF this] Suc p show ?thesis by simp
  qed
qed

lemma lowerTriangular_filter:
  "lowerTriangular seen m \<Longrightarrow>
   lowerTriangular (filter P seen)
     (map (\<lambda>(k, r). (k, filter (\<lambda>(k', d). P k') r)) (filter (\<lambda>(k, r). P k) m))"
proof (induction m arbitrary: seen)
  case Nil
  then show ?case by simp
next
  case (Cons p m)
  obtain k row where p: "p = (k, row)" by (cases p)
  with Cons.prems have k: "k \<notin> set seen" and row: "map fst row = seen"
    and rest: "lowerTriangular (seen @ [k]) m" by auto
  have keys: "map fst (filter (\<lambda>(k', d). P k') row) = filter P seen"
    unfolding row[symmetric] by (induction row) auto
  from Cons.IH[OF rest] k keys p show ?case by (cases "P k") auto
qed

lemma delete_two:
  "AList.delete b (AList.delete a al) = filter (\<lambda>(k, v). k \<noteq> a \<and> k \<noteq> b) al"
  by (induction al) (auto simp: AList.delete_eq)

lemma mergeRow_result:
  assumes "\<forall>k \<in> set ks. k \<noteq> a \<and> k \<noteq> b \<longrightarrow>
            (\<exists>x y. cachedDistance m a k = Inr x \<and> cachedDistance m b k = Inr y)"
    and "distinct ks" and "set ks \<inter> fst ` set acc = {}"
  shows "mergeRow m a b ks acc =
           Inr (acc @ map (\<lambda>k. (k, linkage m a b k)) (filter (\<lambda>k. k \<noteq> a \<and> k \<noteq> b) ks))"
  using assms
proof (induction ks arbitrary: acc)
  case Nil
  then show ?case by simp
next
  case (Cons k ks)
  show ?case
  proof (cases "k \<noteq> a \<and> k \<noteq> b")
    case False
    with Cons.IH[of acc] Cons.prems show ?thesis by auto
  next
    case True
    with Cons.prems(1) obtain x y where
      xy: "cachedDistance m a k = Inr x" "cachedDistance m b k = Inr y" by auto
    have fresh: "k \<notin> fst ` set acc" using Cons.prems(3) by auto
    have upd: "AList.update k (Math_min (toNumber x) (toNumber y)) acc
                 = acc @ [(k, linkage m a b k)]"
      using fresh xy by (simp add: update_fresh linkage_def)
    have "mergeRow m a b ks (acc @ [(k, linkage m a b k)]) =
            Inr ((acc @ [(k, linkage m a b k)])
                 @ map (\<lambda>k. (k, linkage m a b k)) (filter (\<lambda>k. k \<noteq> a \<and> k \<noteq> b) ks))"
      using Cons.prems by (intro Cons.IH) auto
    with True xy upd show ?thesis by simp
  qed
qed

lemma live_row:
  assumes "lowerTriangular [] m" "a \<in> fst ` set m"
  obtains i where "i < length m" "fst (m ! i) = a" "map_of m a = Some (snd (m ! i))"
    "map fst (snd (m ! i)) = take i (map fst m)"
proof -
  from assms(2) obtain i where i: "i < length m" "fst (m ! i) = a"
    by (auto simp: in_set_conv_nth)
  have d: "distinct (map fst m)" using lowerTriangular_distinct[OF assms(1)] by simp
  have "(a, snd (m ! i)) \<in> set m" using i by (metis nth_mem prod.collapse)
  with d have "map_of m a = Some (snd (m ! i))" by simp
  moreover have "map fst (snd (m ! i)) = take i (map fst m)"
    using lowerTriangular_nth[OF assms(1) i(1)] by simp
  ultimately show ?thesis using i that by blast
qed

lemma cachedDistance_live:
  assumes lt: "lowerTriangular [] m" and a: "a \<in> fst ` set m" and x: "x \<in> fst ` set m"
    and neq: "a \<noteq> x"
  shows "\<exists>d row k. cachedDistance m a x = Inr (Some d) \<and> (k, row) \<in> set m \<and> d \<in> snd ` set row"
proof -
  from lt a obtain i where i: "i < length m" "fst (m ! i) = a"
    "map_of m a = Some (snd (m ! i))" "map fst (snd (m ! i)) = take i (map fst m)"
    by (rule live_row)
  from lt x obtain j where j: "j < length m" "fst (m ! j) = x"
    "map_of m x = Some (snd (m ! j))" "map fst (snd (m ! j)) = take j (map fst m)"
    by (rule live_row)
  have mem: "m ! i \<in> set m" "m ! j \<in> set m" using i(1) j(1) by auto
  show ?thesis
  proof (cases "map_of (snd (m ! i)) x")
    case (Some d)
    then have "(x, d) \<in> set (snd (m ! i))" by (rule map_of_SomeD)
    then have "d \<in> snd ` set (snd (m ! i))" by force
    moreover have "cachedDistance m a x = Inr (Some d)"
      using i(3) Some by (simp add: cachedDistance_def)
    ultimately show ?thesis using mem(1) by (metis prod.collapse)
  next
    case None
    then have "x \<notin> set (take i (map fst m))"
      using i(4) by (metis map_of_eq_None_iff set_map)
    moreover have "x = map fst m ! j" using j by simp
    ultimately have "\<not> j < i"
      using j(1) by (metis in_set_conv_nth length_take min_less_iff_conj nth_take length_map i(1))
    moreover have "i \<noteq> j" using i(2) j(2) neq by auto
    ultimately have "i < j" by simp
    then have "a \<in> set (take j (map fst m))"
      using i(1,2) j(1) by (metis in_set_conv_nth length_take min_less_iff_conj nth_take length_map nth_map)
    then have "a \<in> fst ` set (snd (m ! j))" using j(4) by (metis set_map)
    then obtain d where d: "map_of (snd (m ! j)) a = Some d"
      by (metis map_of_eq_None_iff not_Some_eq)
    then have "(a, d) \<in> set (snd (m ! j))" by (rule map_of_SomeD)
    then have "d \<in> snd ` set (snd (m ! j))" by force
    moreover have "cachedDistance m a x = Inr (Some d)"
      using i(3) j(3) None d by (simp add: cachedDistance_def)
    ultimately show ?thesis using mem(2) by (metis prod.collapse)
  qed
qed

lemma others_fun: "others a b = (\<lambda>k. k \<noteq> a \<and> k \<noteq> b)"
  by (simp add: others_def fun_eq_iff)

lemma strip_keys: "map fst (strip a b m) = filter (others a b) (map fst m)"
  by (induction m) (auto simp: strip_def)

lemma strip_eq:
  "map (\<lambda>(key, inner). (key, AList.delete b (AList.delete a inner)))
       (AList.delete b (AList.delete a m)) = strip a b m"
  by (simp add: delete_two strip_def others_fun)

lemma stored_isNum:
  "wellFormed self \<Longrightarrow> (k, row) \<in> set (matrix self) \<Longrightarrow> d \<in> snd ` set row \<Longrightarrow> isNum d"
  by (fastforce simp: wellFormed_def list_all_iff)

lemma key_allocated:
  "wellFormed self \<Longrightarrow> k \<in> fst ` set (matrix self) \<Longrightarrow> ident k < allocated self"
  by (fastforce simp: wellFormed_def list_all_iff)

lemma cachedDistance_wellFormed:
  assumes "wellFormed self" "a \<in> fst ` set (matrix self)" "x \<in> fst ` set (matrix self)" "a \<noteq> x"
  shows "\<exists>n. cachedDistance (matrix self) a x = Inr (Some (Num n))"
proof -
  from assms(1) have lt: "lowerTriangular [] (matrix self)" by (simp add: wellFormed_def)
  from cachedDistance_live[OF lt assms(2,3,4)] obtain d row k where
    d: "cachedDistance (matrix self) a x = Inr (Some d)" "(k, row) \<in> set (matrix self)"
       "d \<in> snd ` set row" by blast
  from stored_isNum[OF assms(1) d(2,3)] obtain n where "d = Num n"
    by (cases d) (auto simp: isNum_def)
  with d(1) show ?thesis by blast
qed

lemma linkage_wellFormed:
  assumes "wellFormed self" "a \<in> fst ` set (matrix self)" "b \<in> fst ` set (matrix self)"
    "x \<in> fst ` set (matrix self)" "x \<noteq> a" "x \<noteq> b"
  shows "\<exists>p q. cachedDistance (matrix self) a x = Inr (Some (Num p))
             \<and> cachedDistance (matrix self) b x = Inr (Some (Num q))
             \<and> linkage (matrix self) a b x = Num (min p q)"
proof -
  from cachedDistance_wellFormed[OF assms(1,2,4)] assms(5)
  obtain p where p: "cachedDistance (matrix self) a x = Inr (Some (Num p))" by auto
  from cachedDistance_wellFormed[OF assms(1,3,4)] assms(6)
  obtain q where q: "cachedDistance (matrix self) b x = Inr (Some (Num q))" by auto
  from p q show ?thesis by (simp add: linkage_def)
qed

lemma length_others:
  assumes "distinct ks" "a \<in> set ks" "b \<in> set ks" "a \<noteq> b"
  shows "length (filter (others a b) ks) + 2 = length ks"
proof -
  have "set (filter (\<lambda>k. \<not> others a b k) ks) = {a, b}"
    using assms by (auto simp: others_def)
  moreover have "distinct (filter (\<lambda>k. \<not> others a b k) ks)" using assms(1) by simp
  ultimately have "length (filter (\<lambda>k. \<not> others a b k) ks) = card {a, b}"
    by (metis distinct_card)
  with assms(4) have "length (filter (\<lambda>k. \<not> others a b k) ks) = 2" by simp
  moreover have "length (filter (others a b) ks) + length (filter (\<lambda>k. \<not> others a b k) ks)
                   = length ks"
    by (induction ks) auto
  ultimately show ?thesis by simp
qed

lemma merge_result:
  assumes wf: "wellFormed self" and a: "a \<in> fst ` set (matrix self)"
    and b: "b \<in> fst ` set (matrix self)" and neq: "a \<noteq> b"
  shows "merge self a b =
           Inr \<lparr>matrix = strip a b (matrix self)
                    @ [(Merged (allocated self) a b,
                        map (\<lambda>k. (k, linkage (matrix self) a b k))
                            (filter (others a b) (map fst (matrix self))))],
                numClusters = numClusters self - 1,
                allocated = Suc (allocated self)\<rparr>"
proof -
  let ?m = "matrix self"
  from wf have lt: "lowerTriangular [] ?m" by (simp add: wellFormed_def)
  have d: "distinct (map fst ?m)" using lowerTriangular_distinct[OF lt] by simp
  have "\<forall>k \<in> set (map fst ?m). k \<noteq> a \<and> k \<noteq> b \<longrightarrow>
          (\<exists>x y. cachedDistance ?m a k = Inr x \<and> cachedDistance ?m b k = Inr y)"
  proof (intro ballI impI)
    fix k assume k: "k \<in> set (map fst ?m)" and o: "k \<noteq> a \<and> k \<noteq> b"
    then have "k \<in> fst ` set ?m" by simp
    from linkage_wellFormed[OF wf a b this] o
    show "\<exists>x y. cachedDistance ?m a k = Inr x \<and> cachedDistance ?m b k = Inr y" by blast
  qed
  from mergeRow_result[OF this d, of "[]"]
  have row: "mergeRow ?m a b (map fst ?m) [] =
               Inr (map (\<lambda>k. (k, linkage ?m a b k)) (filter (others a b) (map fst ?m)))"
    by (simp add: others_fun)
  have "Merged (allocated self) a b \<notin> fst ` set (strip a b ?m)"
  proof
    assume "Merged (allocated self) a b \<in> fst ` set (strip a b ?m)"
    then have "Merged (allocated self) a b \<in> set (map fst (strip a b ?m))" by simp
    then have "Merged (allocated self) a b \<in> fst ` set ?m" by (simp add: strip_keys)
    from key_allocated[OF wf this] show False by simp
  qed
  then have upd: "AList.update (Merged (allocated self) a b) r (strip a b ?m)
                    = strip a b ?m @ [(Merged (allocated self) a b, r)]" for r
    by (rule update_fresh)
  show ?thesis
    by (simp add: merge_def row Let_def strip_eq upd)
qed

lemma fresh_key:
  assumes "wellFormed self"
  shows "Merged (allocated self) a b \<notin> fst ` set (strip a b (matrix self))"
proof
  assume "Merged (allocated self) a b \<in> fst ` set (strip a b (matrix self))"
  then have "Merged (allocated self) a b \<in> set (map fst (strip a b (matrix self)))" by simp
  then have "Merged (allocated self) a b \<in> fst ` set (matrix self)" by (simp add: strip_keys)
  from key_allocated[OF assms this] show False by simp
qed

lemma strip_subset:
  "(k, row) \<in> set (strip a b m) \<Longrightarrow> \<exists>row'. (k, row') \<in> set m \<and> set row \<subseteq> set row'"
  by (auto simp: strip_def)

lemma merge_wellFormed:
  assumes wf: "wellFormed self" and a: "a \<in> fst ` set (matrix self)"
    and b: "b \<in> fst ` set (matrix self)" and neq: "a \<noteq> b"
    and res: "merge self a b = Inr self'"
  shows "wellFormed self'"
proof -
  let ?m = "matrix self"
  let ?newRow = "map (\<lambda>k. (k, linkage ?m a b k)) (filter (others a b) (map fst ?m))"
  let ?newKey = "Merged (allocated self) a b"
  from merge_result[OF wf a b neq] res
  have self': "self' = \<lparr>matrix = strip a b ?m @ [(?newKey, ?newRow)],
                         numClusters = numClusters self - 1,
                         allocated = Suc (allocated self)\<rparr>" by simp
  from wf have lt: "lowerTriangular [] ?m" and n: "numClusters self = int (length ?m)"
    by (simp_all add: wellFormed_def)
  have d: "distinct (map fst ?m)" using lowerTriangular_distinct[OF lt] by simp
  have "lowerTriangular [] (strip a b ?m)"
    using lowerTriangular_filter[OF lt, of "others a b"] by (simp add: strip_def)
  moreover have "map fst ?newRow = map fst (strip a b ?m)"
    by (simp add: strip_keys comp_def)
  ultimately have tri: "lowerTriangular [] (strip a b ?m @ [(?newKey, ?newRow)])"
    using fresh_key[OF wf, of a b] by (simp add: lowerTriangular_snoc)
  have "length (filter (others a b) (map fst ?m)) + 2 = length (map fst ?m)"
    using d a b neq by (intro length_others) auto
  moreover have "length (strip a b ?m) = length (filter (others a b) (map fst ?m))"
    by (metis strip_keys length_map)
  ultimately have len: "int (length (strip a b ?m @ [(?newKey, ?newRow)])) = numClusters self - 1"
    using n by simp
  have old: "ident k < Suc (allocated self) \<and> list_all (\<lambda>(k, d). isNum d) row"
    if "(k, row) \<in> set (strip a b ?m)" for k row
  proof -
    from strip_subset[OF that] obtain row' where r: "(k, row') \<in> set ?m" "set row \<subseteq> set row'"
      by blast
    then have "k \<in> fst ` set ?m" by force
    from key_allocated[OF wf this] have "ident k < Suc (allocated self)" by simp
    moreover have "isNum d" if "(k', d) \<in> set row" for k' d
    proof -
      from that r(2) have "d \<in> snd ` set row'" by force
      from stored_isNum[OF wf r(1) this] show ?thesis .
    qed
    ultimately show ?thesis by (auto simp: list_all_iff)
  qed
  have new: "list_all (\<lambda>(k, d). isNum d) ?newRow"
  proof -
    have "isNum (linkage ?m a b k)" if "k \<in> set (map fst ?m)" "others a b k" for k
    proof -
      from that have "k \<in> fst ` set ?m" "k \<noteq> a" "k \<noteq> b" by (auto simp: others_def)
      from linkage_wellFormed[OF wf a b this] show ?thesis by (auto simp: isNum_def)
    qed
    then show ?thesis by (auto simp: list_all_iff)
  qed
  have "list_all (\<lambda>(key, row). ident key < Suc (allocated self)
                      \<and> list_all (\<lambda>(k, d). isNum d) row) (strip a b ?m @ [(?newKey, ?newRow)])"
    using old new by (simp add: list_all_iff) blast
  with tri len show ?thesis unfolding self' by (simp add: wellFormed_def)
qed

lemma entries_count:
  "lowerTriangular seen m \<Longrightarrow>
   2 * length (clustersAndDistances m) = 2 * length m * length seen + length m * (length m - 1)"
proof (induction m arbitrary: seen)
  case Nil
  then show ?case by (simp add: clustersAndDistances_def)
next
  case (Cons p m)
  obtain k row where p: "p = (k, row)" by (cases p)
  with Cons.prems have row: "map fst row = seen" and rest: "lowerTriangular (seen @ [k]) m"
    by auto
  from row have lr: "length row = length seen" by (metis length_map)
  have split: "length (clustersAndDistances (p # m)) = length row + length (clustersAndDistances m)"
    by (simp add: clustersAndDistances_def p)
  have IH: "2 * length (clustersAndDistances m)
              = 2 * length m * (length seen + 1) + length m * (length m - 1)"
    using Cons.IH[OF rest] by simp
  have "length m * (length m - 1) + 2 * length m = (length m + 1) * length m"
    by (cases "length m") auto
  then show ?case unfolding split lr using IH by (simp add: algebra_simps)
qed

lemma initRow_result:
  "initRow t outer ks acc = Inr row \<Longrightarrow> distinct ks \<Longrightarrow> set ks \<inter> fst ` set acc = {} \<Longrightarrow>
   map fst row = map fst acc @ ks \<and> (\<forall>d \<in> snd ` set row. isNum d \<or> d \<in> snd ` set acc)"
proof (induction ks arbitrary: acc)
  case Nil
  then show ?case by auto
next
  case (Cons k ks)
  from Cons.prems(1) obtain x y d where
    el: "element0 outer = Some x" "element0 k = Some y" and d: "distance t x y = Inr d"
    and rec: "initRow t outer ks (AList.update k (Num d) acc) = Inr row"
    by (auto split: option.splits sum.splits)
  have fresh: "k \<notin> fst ` set acc" using Cons.prems(3) by auto
  then have upd: "AList.update k (Num d) acc = acc @ [(k, Num d)]" by (rule update_fresh)
  have "distinct ks" "set ks \<inter> fst ` set (acc @ [(k, Num d)]) = {}"
    using Cons.prems(2,3) by auto
  from Cons.IH[OF rec[unfolded upd] this]
  show ?case by (auto simp: isNum_def)
qed

lemma initMatrix_result:
  "initMatrix t cs m = Inr m' \<Longrightarrow> lowerTriangular [] m \<Longrightarrow> distinct (map fst m @ cs) \<Longrightarrow>
   list_all (\<lambda>(key, row). list_all (\<lambda>(k, d). isNum d) row) m \<Longrightarrow>
   lowerTriangular [] m' \<and> map fst m' = map fst m @ cs
   \<and> list_all (\<lambda>(key, row). list_all (\<lambda>(k, d). isNum d) row) m'"
proof (induction cs arbitrary: m)
  case Nil
  then show ?case by simp
next
  case (Cons c cs)
  from Cons.prems(1) obtain innerMap where
    row: "initRow t c (map fst m) [] = Inr innerMap"
    and rec: "initMatrix t cs (AList.update c innerMap m) = Inr m'"
    by (auto split: sum.splits)
  have dk: "distinct (map fst m)" using Cons.prems(3) by simp
  from initRow_result[OF row dk]
  have keys: "map fst innerMap = map fst m" and nums: "\<forall>d \<in> snd ` set innerMap. isNum d"
    by auto
  have fresh: "c \<notin> fst ` set m" using Cons.prems(3) by auto
  then have upd: "AList.update c innerMap m = m @ [(c, innerMap)]" by (rule update_fresh)
  have 1: "lowerTriangular [] (m @ [(c, innerMap)])"
    using Cons.prems(2) fresh keys by (simp add: lowerTriangular_snoc)
  have 2: "distinct (map fst (m @ [(c, innerMap)]) @ cs)" using Cons.prems(3) by simp
  have 3: "list_all (\<lambda>(key, row). list_all (\<lambda>(k, d). isNum d) row) (m @ [(c, innerMap)])"
    using Cons.prems(4) nums by (auto simp: list_all_iff)
  from Cons.IH[OF rec[unfolded upd] 1 2 3] show ?case by simp
qed

lemma singletons_ident: "map ident (singletons es) = [0 ..< length es]"
proof -
  have "map ident (singletons es) = map fst (enumerate 0 es)"
    by (simp add: singletons_def comp_def case_prod_unfold)
  then show ?thesis by (simp add: map_fst_enumerate)
qed

lemma singletons_flatten:
  "concat (map (flatten iterOf) (singletons es))
     = concat (map (\<lambda>el. flattenNode el (iterOf el)) es)"
proof -
  have "concat (map (flatten iterOf) (map (\<lambda>(i, el). Single i el) (enumerate n es)))
          = concat (map (\<lambda>el. flattenNode el (iterOf el)) es)" for n
    by (induction es arbitrary: n) auto
  then show ?thesis by (simp add: singletons_def)
qed

lemma flattenNode_plain:
  "\<forall>el \<in> set es. iterOf el = NotIterable \<Longrightarrow>
   concat (map (\<lambda>el. flattenNode el (iterOf el)) es) = es"
  by (induction es) auto

lemma singletons_distinct: "distinct (singletons es)"
proof -
  have "distinct (map ident (singletons es))" by (simp add: singletons_ident)
  then show ?thesis by (rule distinct_map[THEN iffD1, THEN conjunct1])
qed

lemma DistanceMatrix_new_wellFormed:
  assumes "DistanceMatrix_new t es = Inr self"
  shows "wellFormed self \<and> map fst (matrix self) = singletons es"
proof -
  from assms obtain m where m: "initMatrix t (singletons es) [] = Inr m"
    and self: "self = \<lparr>matrix = m, numClusters = int (length es), allocated = length es\<rparr>"
    by (auto simp: DistanceMatrix_new_def split: sum.splits)
  from initMatrix_result[OF m] singletons_distinct[of es]
  have lt: "lowerTriangular [] m" and keys: "map fst m = singletons es"
    and nums: "list_all (\<lambda>(key, row). list_all (\<lambda>(k, d). isNum d) row) m"
    by auto
  have len: "length m = length es"
    using keys singletons_ident[of es] by (metis length_map length_upt minus_nat.diff_0)
  have "ident k < length es" if "k \<in> set (singletons es)" for k
  proof -
    from that have "ident k \<in> set (map ident (singletons es))" by simp
    then show ?thesis by (simp add: singletons_ident)
  qed
  then have "\<forall>(k, row) \<in> set m. ident k < length es"
    using keys by (metis (mono_tags, lifting) case_prodI2 fst_conv image_eqI set_map)
  with nums have "list_all (\<lambda>(key, row). ident key < length es
                      \<and> list_all (\<lambda>(k, d). isNum d) row) m"
    by (auto simp: list_all_iff)
  with lt len keys show ?thesis by (simp add: self wellFormed_def)
qed

lemma reachable_wellFormed: "reachable t self \<Longrightarrow> wellFormed self"
proof (induction rule: reachable.induct)
  case (constructed t elements self)
  then show ?case using DistanceMatrix_new_wellFormed by blast
next
  case (merged t self a b self')
  then show ?case by (intro merge_wellFormed[of self a b self']) (simp_all add: liveClusters_def)
qed


lemma isNum_Num: "isNum x \<Longrightarrow> \<exists>n. x = Num n"
  by (cases x) (auto simp: isNum_def)

lemma js_lt_trans: "js_lt x y \<Longrightarrow> js_lt y z \<Longrightarrow> js_lt x z"
  by (cases x; cases y; cases z) auto

lemma js_lt_le_trans: "isNum z \<Longrightarrow> js_lt x y \<Longrightarrow> \<not> js_lt z y \<Longrightarrow> js_lt x z"
  by (cases x; cases y; cases z) (auto simp: isNum_def)

lemma minLoop_first_minimum:
  assumes "\<forall>x \<in> set (pre @ best # mid @ xs). isNum (f x)"
    and "\<forall>x \<in> set pre. js_lt (f best) (f x)"
    and "\<forall>x \<in> set mid. \<not> js_lt (f x) (f best)"
  shows "\<exists>pre' post'. pre @ best # mid @ xs = pre' @ minLoop f xs best # post'
           \<and> (\<forall>x \<in> set pre'. js_lt (f (minLoop f xs best)) (f x))
           \<and> (\<forall>x \<in> set post'. \<not> js_lt (f x) (f (minLoop f xs best)))"
  using assms
proof (induction xs arbitrary: pre best mid)
  case Nil
  then show ?case by (intro exI[of _ pre] exI[of _ mid]) simp
next
  case (Cons x xs)
  show ?case
  proof (cases "js_lt (f x) (f best)")
    case True
    have 1: "\<forall>y \<in> set ((pre @ best # mid) @ x # [] @ xs). isNum (f y)"
      using Cons.prems(1) by auto
    have 2: "\<forall>y \<in> set (pre @ best # mid). js_lt (f x) (f y)"
    proof
      fix y assume "y \<in> set (pre @ best # mid)"
      then consider "y \<in> set pre" | "y = best" | "y \<in> set mid" by auto
      then show "js_lt (f x) (f y)"
      proof cases
        case 1
        with Cons.prems(2) True show ?thesis by (blast intro: js_lt_trans)
      next
        case 2
        with True show ?thesis by simp
      next
        case 3
        with Cons.prems(1,3) True show ?thesis by (auto intro: js_lt_le_trans)
      qed
    qed
    from Cons.IH[of "pre @ best # mid" x "[]", OF 1 2] True show ?thesis by simp
  next
    case False
    have 1: "\<forall>y \<in> set (pre @ best # (mid @ [x]) @ xs). isNum (f y)"
      using Cons.prems(1) by auto
    have 3: "\<forall>y \<in> set (mid @ [x]). \<not> js_lt (f y) (f best)"
      using Cons.prems(3) False by auto
    from Cons.IH[of pre best "mid @ [x]", OF 1 Cons.prems(2) 3] False show ?thesis by simp
  qed
qed

lemma min_by_first_minimum:
  assumes "es \<noteq> []" "\<forall>x \<in> set es. isNum (f x)"
  shows "\<exists>e pre post. min_by es f = Inr e \<and> es = pre @ e # post
           \<and> (\<forall>x \<in> set pre. js_lt (f e) (f x)) \<and> (\<forall>x \<in> set post. \<not> js_lt (f x) (f e))"
proof -
  from assms(1) obtain x xs where es: "es = x # xs" by (cases es) auto
  from minLoop_first_minimum[of "[]" x "[]" xs f] assms(2) es
  show ?thesis by (auto simp: min_by_def)
qed

lemma entries_isNum:
  assumes "wellFormed self" "e \<in> set (clustersAndDistances (matrix self))"
  shows "isNum (entry_distance e)"
  using assms by (fastforce simp: clustersAndDistances_def wellFormed_def list_all_iff)

lemma entries_nonempty:
  assumes "wellFormed self" "2 \<le> numClusters self"
  shows "clustersAndDistances (matrix self) \<noteq> []"
proof
  assume e: "clustersAndDistances (matrix self) = []"
  from assms(1) have lt: "lowerTriangular [] (matrix self)"
    and n: "numClusters self = int (length (matrix self))" by (simp_all add: wellFormed_def)
  from entries_count[OF lt] e have "length (matrix self) * (length (matrix self) - 1) = 0"
    by simp
  with n assms(2) show False by auto
qed

lemma sample_constructed: "DistanceMatrix_new sampleTree [[0], [2], [3, 0]] = Inr sampleMatrix"
  by code_simp

lemma sample_reachable: "reachable sampleTree sampleMatrix"
  by (rule reachable.constructed[OF sample_constructed])

lemma pair_entry:
  assumes lt: "lowerTriangular [] m" and ij: "i < j" "j < length m"
  shows "(\<exists>d. map_of (snd (m ! j)) (fst (m ! i)) = Some d)
         \<and> map_of (snd (m ! i)) (fst (m ! j)) = None"
proof -
  let ?ks = "map fst m"
  have d: "distinct ?ks" using lowerTriangular_distinct[OF lt] by simp
  from ij have i: "i < length m" by simp
  have rj: "map fst (snd (m ! j)) = take j ?ks" using lowerTriangular_nth[OF lt ij(2)] by simp
  have ri: "map fst (snd (m ! i)) = take i ?ks" using lowerTriangular_nth[OF lt i] by simp
  have "fst (m ! i) = take j ?ks ! i" using ij by simp
  moreover have "i < length (take j ?ks)" using ij by simp
  ultimately have "fst (m ! i) \<in> set (take j ?ks)" by (metis nth_mem)
  then have "fst (m ! i) \<in> fst ` set (snd (m ! j))" using rj by (metis set_map)
  then have some: "\<exists>d. map_of (snd (m ! j)) (fst (m ! i)) = Some d"
    by (metis map_of_eq_None_iff not_Some_eq)
  have "fst (m ! j) \<notin> set (take i ?ks)"
  proof
    assume "fst (m ! j) \<in> set (take i ?ks)"
    then obtain k where k: "k < i" "k < length m" "?ks ! k = fst (m ! j)"
      by (auto simp: in_set_conv_nth)
    then have "?ks ! k = ?ks ! j" "k < length ?ks" "j < length ?ks" "k \<noteq> j"
      using ij by simp_all
    with d show False by (metis nth_eq_iff_index_eq)
  qed
  then have "fst (m ! j) \<notin> fst ` set (snd (m ! i))" using ri by (metis set_map)
  then have "map_of (snd (m ! i)) (fst (m ! j)) = None" by (simp add: map_of_eq_None_iff)
  with some show ?thesis by simp
qed

subsection \<open>Errors\<close>

lemma ascendA_error: "ascendA cur b acc = Inl e \<Longrightarrow> e = TypeError"
proof (induction cur b acc rule: ascendA.induct)
  case (1 aAncestor elementB aAncestors)
  show ?case
  proof (cases "contains aAncestor elementB")
    case True
    with "1.prems" show ?thesis by (subst (asm) ascendA.simps) simp
  next
    case False
    show ?thesis
    proof (cases "parentNode aAncestor")
      case None
      with False "1.prems" show ?thesis by (subst (asm) ascendA.simps) simp
    next
      case (Some parent)
      with False "1.prems" have "ascendA parent elementB (aAncestors @ [parent]) = Inl e"
        by (subst (asm) ascendA.simps) simp
      from "1.IH"[OF False Some this] show ?thesis .
    qed
  qed
qed

lemma ascendB_error: "ascendB cur target acc = Inl e \<Longrightarrow> e = TypeError"
proof (induction cur target acc rule: ascendB.induct)
  case (1 bAncestor aAncestor bAncestors)
  show ?case
  proof (cases "parentNode bAncestor")
    case None
    with "1.prems" show ?thesis by (subst (asm) ascendB.simps) simp
  next
    case (Some parent)
    show ?thesis
    proof (cases "parent = aAncestor")
      case True
      with Some "1.prems" show ?thesis by (subst (asm) ascendB.simps) simp
    next
      case False
      with Some "1.prems" have "ascendB parent aAncestor (bAncestors @ [parent]) = Inl e"
        by (subst (asm) ascendB.simps) simp
      from "1.IH"[OF Some False this] show ?thesis .
    qed
  qed
qed

lemma distance_error: "distance t a b = Inl e \<Longrightarrow> e = TypeError"
  by (auto simp: distance_def Let_def split: if_splits sum.splits prod.splits
           dest: ascendA_error ascendB_error)

lemma initRow_error: "initRow t outer ks acc = Inl e \<Longrightarrow> e = TypeError"
  by (induction ks arbitrary: acc)
     (auto split: option.splits sum.splits dest: distance_error)

lemma initMatrix_error: "initMatrix t cs m = Inl e \<Longrightarrow> e = TypeError"
  by (induction cs arbitrary: m) (auto split: sum.splits dest: initRow_error)

lemma DistanceMatrix_new_error: "DistanceMatrix_new t es = Inl e \<Longrightarrow> e = TypeError"
  by (auto simp: DistanceMatrix_new_def split: sum.splits dest: initMatrix_error)

lemma cachedDistance_error: "cachedDistance m a b = Inl e \<Longrightarrow> e = TypeError"
  by (auto simp: cachedDistance_def split: option.splits)

lemma mergeRow_error: "mergeRow m a b ks acc = Inl e \<Longrightarrow> e = TypeError"
  by (induction ks arbitrary: acc)
     (auto split: if_splits sum.splits dest: cachedDistance_error)

lemma merge_error: "merge self a b = Inl e \<Longrightarrow> e = TypeError"
  by (auto simp: merge_def Let_def split: sum.splits dest: mergeRow_error)

lemma closest_error_guarded:
  "1 < numClusters self \<Longrightarrow> closest self = Inl e \<Longrightarrow> e = EmptyIterable"
  by (auto simp: closest_def min_by_def split: list.splits)

lemma mergeLoop_error: "mergeLoop m tooFar = Inl e \<Longrightarrow> e \<noteq> InsufficientClusters"
proof (induction m tooFar rule: mergeLoop.induct)
  case (1 m tooFar)
  show ?case
  proof (cases "1 < numClusters m")
    case False
    with "1.prems" show ?thesis by (subst (asm) mergeLoop.simps) simp
  next
    case True
    show ?thesis
    proof (cases "closest m")
      case (Inl e')
      with True "1.prems" have "e = e'" by (subst (asm) mergeLoop.simps) simp
      with closest_error_guarded[OF True Inl] show ?thesis by simp
    next
      case (Inr c)
      show ?thesis
      proof (cases "js_lt (entry_distance c) tooFar")
        case False
        with True Inr "1.prems" show ?thesis by (subst (asm) mergeLoop.simps) simp
      next
        case lt: True
        show ?thesis
        proof (cases "merge m (entry_a c) (entry_b c)")
          case (Inl e')
          with True Inr lt "1.prems" have "e = e'" by (subst (asm) mergeLoop.simps) simp
          with merge_error[OF Inl] show ?thesis by simp
        next
          case (Inr m')
          with True \<open>closest m = Inr c\<close> lt "1.prems" have "mergeLoop m' tooFar = Inl e"
            by (subst (asm) mergeLoop.simps) simp
          from "1.IH"[OF True \<open>closest m = Inr c\<close> lt Inr this] show ?thesis .
        qed
      qed
    qed
  qed
qed

lemma clusters_error: "clusters t iterOf es tooFar = Inl e \<Longrightarrow> e \<noteq> InsufficientClusters"
  by (auto simp: clusters_def split: sum.splits
           dest: DistanceMatrix_new_error mergeLoop_error)

subsection \<open>When the constructor returns\<close>

lemma initRow_returns:
  assumes "\<forall>k \<in> set ks. \<exists>i y. k = Single i y \<and> \<not> strict_prefix y x"
  shows "\<exists>row. initRow t (Single n x) ks acc = Inr row"
  using assms
proof (induction ks arbitrary: acc)
  case Nil
  then show ?case by simp
next
  case (Cons k ks)
  then obtain i y where k: "k = Single i y" "\<not> strict_prefix y x" by auto
  from distance_returns[OF k(2), of t] obtain d where "distance t x y = Inr d" by blast
  moreover from Cons.IH[of "AList.update k (Num d) acc"] Cons.prems
  obtain row where "initRow t (Single n x) ks (AList.update k (Num d) acc) = Inr row" by auto
  ultimately show ?case using k(1) by simp
qed

lemma initMatrix_returns:
  assumes "\<forall>k \<in> fst ` set m. \<exists>i y. k = Single i y \<and> (\<forall>x \<in> set es. \<not> strict_prefix y x)"
    and "sorted_wrt (\<lambda>x y. \<not> strict_prefix x y) es"
  shows "\<exists>m'. initMatrix t (map (\<lambda>(i, el). Single i el) (enumerate n es)) m = Inr m'"
  using assms
proof (induction es arbitrary: n m)
  case Nil
  then show ?case by simp
next
  case (Cons x xs)
  have "\<forall>k \<in> set (map fst m). \<exists>i y. k = Single i y \<and> \<not> strict_prefix y x"
    using Cons.prems(1) by auto
  from initRow_returns[OF this, of t n "[]"] obtain row where
    row: "initRow t (Single n x) (map fst m) [] = Inr row" by blast
  have keys: "\<forall>k \<in> fst ` set (AList.update (Single n x) row m).
                \<exists>i y. k = Single i y \<and> (\<forall>x' \<in> set xs. \<not> strict_prefix y x')"
  proof
    fix k assume "k \<in> fst ` set (AList.update (Single n x) row m)"
    then have "k = Single n x \<or> k \<in> fst ` set m" by (simp add: dom_update)
    then show "\<exists>i y. k = Single i y \<and> (\<forall>x' \<in> set xs. \<not> strict_prefix y x')"
    proof
      assume "k = Single n x"
      with Cons.prems(2) show ?thesis by auto
    next
      assume "k \<in> fst ` set m"
      with Cons.prems(1) show ?thesis by fastforce
    qed
  qed
  from Cons.prems(2) have "sorted_wrt (\<lambda>x y. \<not> strict_prefix x y) xs" by simp
  from Cons.IH[OF keys this, of "Suc n"] row show ?case by simp
qed

lemma DistanceMatrix_new_returns:
  assumes "sorted_wrt (\<lambda>x y. \<not> strict_prefix x y) es"
  shows "\<exists>self. DistanceMatrix_new t es = Inr self"
proof -
  from initMatrix_returns[where m="[]" and es=es and n=0 and t=t] assms obtain m where
    "initMatrix t (singletons es) [] = Inr m" by (auto simp: singletons_def)
  then show ?thesis by (simp add: DistanceMatrix_new_def)
qed

subsection \<open>The merge loop\<close>

lemma entries_set:
  "e \<in> set (clustersAndDistances m) \<longleftrightarrow>
     (\<exists>k row k' d. (k, row) \<in> set m \<and> (k', d) \<in> set row
        \<and> e = \<lparr>entry_a = k, entry_b = k', entry_distance = d\<rparr>)"
proof (induction m)
  case Nil
  show ?case by (simp add: clustersAndDistances_def)
next
  case (Cons p m)
  obtain k row where p: "p = (k, row)" by (cases p)
  have "set (clustersAndDistances (p # m))
          = (\<lambda>(k', d). \<lparr>entry_a = k, entry_b = k', entry_distance = d\<rparr>) ` set row
            \<union> set (clustersAndDistances m)"
    by (simp add: clustersAndDistances_def p)
  with Cons.IH p show ?case by auto
qed

lemma entry_live:
  assumes lt: "lowerTriangular [] m" and e: "e \<in> set (clustersAndDistances m)"
  shows "entry_a e \<in> fst ` set m \<and> entry_b e \<in> fst ` set m \<and> entry_a e \<noteq> entry_b e"
proof -
  from e obtain k row k' d where kr: "(k, row) \<in> set m" and "(k', d) \<in> set row"
    and "e = \<lparr>entry_a = k, entry_b = k', entry_distance = d\<rparr>"
    by (auto simp: entries_set)
  then have a: "entry_a e = k" and b: "entry_b e \<in> fst ` set row"
    by force+
  from kr obtain i where i: "i < length m" "m ! i = (k, row)" by (auto simp: in_set_conv_nth)
  from lowerTriangular_nth[OF lt i(1)] i(2) have keys: "map fst row = take i (map fst m)" by simp
  have d: "distinct (map fst m)" using lowerTriangular_distinct[OF lt] by simp
  from b keys have bt: "entry_b e \<in> set (take i (map fst m))" by (metis set_map)
  then have live: "entry_b e \<in> fst ` set m" by (metis in_set_takeD set_map)
  have "k \<notin> set (take i (map fst m))"
  proof
    assume "k \<in> set (take i (map fst m))"
    then obtain j where j: "j < i" "j < length m" "map fst m ! j = k"
      by (auto simp: in_set_conv_nth)
    moreover have "map fst m ! i = k" using i by simp
    ultimately have "map fst m ! j = map fst m ! i" "j < length (map fst m)"
      "i < length (map fst m)" "j \<noteq> i" using i(1) by simp_all
    with d show False by (metis nth_eq_iff_index_eq)
  qed
  with bt a have "entry_a e \<noteq> entry_b e" by auto
  moreover have "entry_a e \<in> fst ` set m" using kr a by force
  ultimately show ?thesis using live by simp
qed

lemma flatten_two:
  assumes "distinct ks" "a \<noteq> b"
  shows "mset (concat (map (flatten iterOf) (filter (others a b) ks)))
           + (if a \<in> set ks then mset (flatten iterOf a) else {#})
           + (if b \<in> set ks then mset (flatten iterOf b) else {#})
         = mset (concat (map (flatten iterOf) ks))"
  using assms by (induction ks) (auto simp: others_def ac_simps)

lemma concat_clusters_of:
  "concat (clusters_of iterOf s) = concat (map (flatten iterOf) (map fst (matrix s)))"
  by (simp add: clusters_of_def case_prod_unfold comp_def)

lemma merge_nodes:
  assumes wf: "wellFormed self" and a: "a \<in> fst ` set (matrix self)"
    and b: "b \<in> fst ` set (matrix self)" and neq: "a \<noteq> b"
    and res: "merge self a b = Inr self'"
  shows "mset (concat (clusters_of iterOf self')) = mset (concat (clusters_of iterOf self))"
proof -
  from wf have lt: "lowerTriangular [] (matrix self)" by (simp add: wellFormed_def)
  have d: "distinct (map fst (matrix self))" using lowerTriangular_distinct[OF lt] by simp
  from merge_result[OF wf a b neq] res
  have "map fst (matrix self')
          = filter (others a b) (map fst (matrix self)) @ [Merged (allocated self) a b]"
    by (auto simp: strip_keys)
  then have "mset (concat (clusters_of iterOf self'))
      = mset (concat (map (flatten iterOf) (filter (others a b) (map fst (matrix self)))))
        + mset (flatten iterOf a) + mset (flatten iterOf b)"
    by (simp only: concat_clusters_of) simp
  also have "\<dots> = mset (concat (map (flatten iterOf) (map fst (matrix self))))"
    using flatten_two[OF d neq] a b by simp
  finally show ?thesis by (simp only: concat_clusters_of)
qed

lemma mergeLoop_Infinity:
  assumes "wellFormed self" "1 \<le> numClusters self"
  shows "\<exists>self'. mergeLoop self Infinity = Inr self' \<and> wellFormed self'
           \<and> numClusters self' = 1
           \<and> mset (concat (clusters_of iterOf self')) = mset (concat (clusters_of iterOf self))"
  using assms
proof (induction "nat (numClusters self)" arbitrary: self rule: less_induct)
  case less
  note wf = less.prems(1)
  show ?case
  proof (cases "1 < numClusters self")
    case False
    with less.prems have "numClusters self = 1" by simp
    with wf show ?thesis by (subst mergeLoop.simps) simp
  next
    case True
    then have n: "2 \<le> numClusters self" by simp
    from wf have lt: "lowerTriangular [] (matrix self)" by (simp add: wellFormed_def)
    have num: "\<forall>x \<in> set (clustersAndDistances (matrix self)). isNum (entry_distance x)"
      using entries_isNum[OF wf] by blast
    from min_by_first_minimum[OF entries_nonempty[OF wf n] num]
    obtain c pre post where c: "min_by (clustersAndDistances (matrix self)) entry_distance = Inr c"
      "clustersAndDistances (matrix self) = pre @ c # post" by blast
    then have mem: "c \<in> set (clustersAndDistances (matrix self))" by simp
    from c(1) True have cl: "closest self = Inr c" by (simp add: closest_def)
    from num mem obtain k where "entry_distance c = Num k" by (auto dest: isNum_Num)
    then have near: "js_lt (entry_distance c) Infinity" by simp
    from entry_live[OF lt mem] have a: "entry_a c \<in> fst ` set (matrix self)"
      and b: "entry_b c \<in> fst ` set (matrix self)" and neq: "entry_a c \<noteq> entry_b c"
      by simp_all
    from merge_result[OF wf a b neq] obtain m' where
      m': "merge self (entry_a c) (entry_b c) = Inr m'" by blast
    have wf': "wellFormed m'" by (rule merge_wellFormed[OF wf a b neq m'])
    have n': "numClusters m' = numClusters self - 1" by (rule merge_numClusters[OF m'])
    have nodes: "mset (concat (clusters_of iterOf m')) = mset (concat (clusters_of iterOf self))"
      by (rule merge_nodes[OF wf a b neq m'])
    from n' True have "nat (numClusters m') < nat (numClusters self)" "1 \<le> numClusters m'"
      by simp_all
    from less.hyps[OF this(1) wf' this(2)] obtain self' where
      "mergeLoop m' Infinity = Inr self'" "wellFormed self'" "numClusters self' = 1"
      "mset (concat (clusters_of iterOf self')) = mset (concat (clusters_of iterOf m'))" by blast
    with True cl near m' nodes show ?thesis by (subst mergeLoop.simps) simp
  qed
qed

section \<open>merge, closest and the table\<close>



text \<open>
  C6. In every state of the matrix (after construction from any node sequence, and after
  every merge of two distinct live clusters), the number of stored entries is
  \<open>numClusters * (numClusters - 1) / 2\<close>; the row of the j-th live cluster holds exactly the
  clusters inserted before it, each once, so every unordered pair of live clusters has one
  entry, in the row of the cluster inserted later.
\<close>

theorem triangular_entry_count:
  assumes r: "reachable t self"
  shows "int (length (clustersAndDistances (matrix self)))
           = numClusters self * (numClusters self - 1) div 2
         \<and> numClusters self = int (length (liveClusters self))
         \<and> distinct (liveClusters self)
         \<and> (\<forall>j < length (matrix self).
               map fst (snd (matrix self ! j)) = take j (liveClusters self))
         \<and> (\<forall>i j. i < j \<and> j < length (matrix self) \<longrightarrow>
               (\<exists>d. map_of (snd (matrix self ! j)) (liveClusters self ! i) = Some d)
               \<and> map_of (snd (matrix self ! i)) (liveClusters self ! j) = None)"
proof -
  let ?m = "matrix self"
  from r have wf: "wellFormed self" by (rule reachable_wellFormed)
  then have lt: "lowerTriangular [] ?m" and n: "numClusters self = int (length ?m)"
    by (simp_all add: wellFormed_def)
  have "2 * length (clustersAndDistances ?m) = length ?m * (length ?m - 1)"
    using entries_count[OF lt] by simp
  then have "2 * int (length (clustersAndDistances ?m)) = int (length ?m) * (int (length ?m) - 1)"
    by (cases "length ?m") (auto simp: algebra_simps simp flip: of_nat_mult)
  then have count: "int (length (clustersAndDistances ?m))
                      = numClusters self * (numClusters self - 1) div 2"
    unfolding n by linarith
  have d: "distinct (liveClusters self)"
    using lowerTriangular_distinct[OF lt] by (simp add: liveClusters_def)
  have rows: "\<forall>j < length ?m. map fst (snd (?m ! j)) = take j (liveClusters self)"
    using lowerTriangular_nth[OF lt] by (simp add: liveClusters_def)
  have pairs: "\<forall>i j. i < j \<and> j < length ?m \<longrightarrow>
               (\<exists>d. map_of (snd (?m ! j)) (liveClusters self ! i) = Some d)
               \<and> map_of (snd (?m ! i)) (liveClusters self ! j) = None"
    using pair_entry[OF lt] by (simp add: liveClusters_def)
  from count n d rows pairs show ?thesis by (simp add: liveClusters_def)
qed

theorem triangular_entry_count_witness:
  "DistanceMatrix_new sampleTree [[0], [2], [3, 0]] = Inr sampleMatrix
   \<and> numClusters sampleMatrix = 3
   \<and> int (length (clustersAndDistances (matrix sampleMatrix))) = 3"
proof -
  have n: "numClusters sampleMatrix = 3" by (simp add: sampleMatrix_def)
  from triangular_entry_count[OF sample_reachable]
  have "int (length (clustersAndDistances (matrix sampleMatrix)))
          = numClusters sampleMatrix * (numClusters sampleMatrix - 1) div 2" by blast
  with n sample_constructed show ?thesis by simp
qed



text \<open>
  C9. In every state of the matrix \<open>closest()\<close> throws exactly when fewer than two clusters
  are live, and then the error is the one of its own guard, never a result; the loop of
  \<open>clusters\<close> asks for the closest pair only under \<open>numClusters() > 1\<close>, so neither the loop
  nor \<open>clusters\<close> ever ends in that error.
\<close>

theorem closest_throws_iff:
  assumes "reachable t self"
  shows "((\<exists>e. closest self = Inl e) \<longleftrightarrow> numClusters self < 2)
         \<and> (numClusters self < 2 \<longrightarrow> closest self = Inl InsufficientClusters)
         \<and> mergeLoop self tooFar \<noteq> Inl InsufficientClusters
         \<and> clusters t iterOf elements tooFar \<noteq> Inl InsufficientClusters"
proof -
  from assms have wf: "wellFormed self" by (rule reachable_wellFormed)
  have few: "closest self = Inl InsufficientClusters" if "numClusters self < 2"
    using that by (simp add: closest_def)
  have many: "\<exists>c. closest self = Inr c" if "\<not> numClusters self < 2"
  proof -
    from that have n: "2 \<le> numClusters self" by simp
    have "\<forall>x \<in> set (clustersAndDistances (matrix self)). isNum (entry_distance x)"
      using entries_isNum[OF wf] by blast
    from min_by_first_minimum[OF entries_nonempty[OF wf n] this] that
    show ?thesis by (auto simp: closest_def)
  qed
  have "(\<exists>e. closest self = Inl e) \<longleftrightarrow> numClusters self < 2"
    using few many by (cases "numClusters self < 2") auto
  moreover have "mergeLoop self tooFar \<noteq> Inl InsufficientClusters"
    using mergeLoop_error by blast
  moreover have "clusters t iterOf elements tooFar \<noteq> Inl InsufficientClusters"
    using clusters_error by blast
  ultimately show ?thesis using few by blast
qed

theorem closest_throws_iff_witness:
  "DistanceMatrix_new sampleTree [[0]] = Inr sampleSingle
   \<and> numClusters sampleSingle < 2
   \<and> closest sampleSingle = Inl InsufficientClusters
   \<and> clusters sampleTree noIteration [[0]] (Num 3) = Inr [[[0]]]"
proof -
  have c: "DistanceMatrix_new sampleTree [[0]] = Inr sampleSingle" by code_simp
  then have r: "reachable sampleTree sampleSingle" by (rule reachable.constructed)
  have n: "numClusters sampleSingle < 2" by (simp add: sampleSingle_def)
  have run: "clusters sampleTree noIteration [[0]] (Num 3) = Inr [[[0]]]" by code_simp
  from closest_throws_iff[OF r, where tooFar="Num 3" and elements="[[0]]"] n
  have "closest sampleSingle = Inl InsufficientClusters" by blast
  with c n run show ?thesis by simp
qed

section \<open>clusters with an infinite threshold\<close>

lemma clusters_Infinity_flattened:
  assumes "elements \<noteq> []" and "sorted_wrt (\<lambda>x y. \<not> strict_prefix x y) elements"
  shows "\<exists>c. clusters t iterOf elements Infinity = Inr [c]
           \<and> mset c = mset (concat (map (\<lambda>el. flattenNode el (iterOf el)) elements))"
proof -
  from DistanceMatrix_new_returns[OF assms(2)] obtain self where
    new: "DistanceMatrix_new t elements = Inr self" by blast
  from DistanceMatrix_new_wellFormed[OF new] have wf: "wellFormed self"
    and keys: "map fst (matrix self) = singletons elements" by simp_all
  have n: "numClusters self = int (length elements)"
    using new by (auto simp: DistanceMatrix_new_def split: sum.splits)
  with assms(1) have "1 \<le> numClusters self" by (cases elements) auto
  from mergeLoop_Infinity[OF wf this, of iterOf] obtain self' where
    loop: "mergeLoop self Infinity = Inr self'" and wf': "wellFormed self'"
    and one: "numClusters self' = 1"
    and nodes: "mset (concat (clusters_of iterOf self')) = mset (concat (clusters_of iterOf self))"
    by blast
  have "concat (clusters_of iterOf self)
          = concat (map (\<lambda>el. flattenNode el (iterOf el)) elements)"
    using singletons_flatten[of iterOf elements] by (simp only: concat_clusters_of keys)
  with nodes have ms: "mset (concat (clusters_of iterOf self'))
                         = mset (concat (map (\<lambda>el. flattenNode el (iterOf el)) elements))"
    by simp
  from wf' one have "length (matrix self') = 1" by (simp add: wellFormed_def)
  then obtain k row where "matrix self' = [(k, row)]"
    by (cases "matrix self'") auto
  then have "clusters_of iterOf self' = [flatten iterOf k]" by (simp add: clusters_of_def)
  with ms new loop show ?thesis by (simp add: clusters_def)
qed

text \<open>
  C4, as the spec has it: for every input sequence \<open>clusters(nodes, Infinity)\<close> returns
  exactly one cluster, which contains all input nodes. For the empty sequence it returns no
  cluster at all. When a node comes before one of its descendants the constructor asks for
  the distance from the descendant to the ancestor, which throws. And for a \<^verbatim>\<open>select\<close>
  followed by a paragraph, the one cluster holds the paragraph and the two options of the
  \<^verbatim>\<open>select\<close>, not the \<^verbatim>\<open>select\<close> itself.
\<close>

theorem clusters_Infinity_counterexample:
  "clusters sampleTree noIteration [] Infinity = Inr []
   \<and> clusters sampleTree noIteration [[], [0]] Infinity = Inl TypeError
   \<and> clusters sampleSelect selectIteration [[0], [1]] Infinity = Inr [[[1], [0, 0], [0, 1]]]"
  by code_simp

text \<open>
  C4, amended: for every non-empty input sequence in which no node is a proper ancestor of a
  node that comes later and no node is iterable, \<open>clusters(nodes, Infinity)\<close> returns exactly
  one cluster, and that cluster holds the input nodes, each as often as the input does.
\<close>

theorem clusters_Infinity_one_cluster:
  assumes "elements \<noteq> []" and "sorted_wrt (\<lambda>x y. \<not> strict_prefix x y) elements"
    and "\<forall>el \<in> set elements. iterOf el = NotIterable"
  shows "\<exists>c. clusters t iterOf elements Infinity = Inr [c] \<and> mset c = mset elements"
  using clusters_Infinity_flattened[OF assms(1,2), of t iterOf] flattenNode_plain[OF assms(3)]
  by simp

theorem clusters_Infinity_one_cluster_witness:
  "[[0, 0], [0, 1], [1]] \<noteq> ([] :: node list)
   \<and> sorted_wrt (\<lambda>x y. \<not> strict_prefix x y) [[0, 0], [0, 1], [1 :: nat]]
   \<and> selectIteration [0, 0] = NotIterable \<and> selectIteration [0, 1] = NotIterable
   \<and> selectIteration [1] = NotIterable
   \<and> clusters sampleSelect selectIteration [[0, 0], [0, 1], [1]] Infinity
       = Inr [[[0, 1], [0, 0], [1]]]"
proof -
  have ne: "[[0, 0], [0, 1], [1]] \<noteq> ([] :: node list)" by simp
  have s: "sorted_wrt (\<lambda>x y. \<not> strict_prefix x y) [[0, 0], [0, 1], [1 :: nat]]" by simp
  have plain: "selectIteration [0, 0] = NotIterable" "selectIteration [0, 1] = NotIterable"
    "selectIteration [1] = NotIterable" by (simp_all add: selectIteration_def)
  then have "\<forall>el \<in> set [[0, 0], [0, 1], [1]]. selectIteration el = NotIterable" by simp
  from clusters_Infinity_one_cluster[OF ne s this, of sampleSelect] obtain c where
    "clusters sampleSelect selectIteration [[0, 0], [0, 1], [1]] Infinity = Inr [c]" by blast
  moreover have "clusters sampleSelect selectIteration [[0, 0], [0, 1], [1]] Infinity
                   = Inr [[[0, 1], [0, 0], [1]]]"
    by code_simp
  ultimately show ?thesis using ne s plain by simp
qed

end

